theory Spec2Isabelle
  imports Main
begin

section \<open>The DOM the morphs write to\<close>

text \<open>
  \<^verbatim>\<open>morph.ts\<close> reads and writes the document through \<^verbatim>\<open>node.nextSibling\<close>,
  \<^verbatim>\<open>node.parentNode\<close>, \<^verbatim>\<open>parent.removeChild\<close>, \<^verbatim>\<open>dom.insertBefore\<close> and
  \<^verbatim>\<open>dom.createComment\<close>. A node is its identity (a number). The document is the
  ordered child list of every node together with every node's parent link, and the
  supply of identities for nodes still to be created. The model is the sibling lists:
  what lies below a node is not followed, so the hierarchy check of the DOM standard
  (a node is never inserted below itself) is not part of it.
\<close>

type_synonym node = nat

record dom =
  kids :: "node \<Rightarrow> node list"
  parentNode :: "node \<Rightarrow> node option"
  fresh :: nat

datatype error = NotFoundError | TypeError

text \<open>The node that follows \<open>n\<close> in a child list, if any.\<close>

fun after :: "node \<Rightarrow> node list \<Rightarrow> node option" where
  "after n [] = None"
| "after n [x] = None"
| "after n (x # y # ys) = (if x = n then Some y else after n (y # ys))"

text \<open>\<^verbatim>\<open>node.nextSibling\<close>: null for a node without parent and for a last child.\<close>

definition nextSibling :: "dom \<Rightarrow> node \<Rightarrow> node option" where
  "nextSibling d n = (case parentNode d n of None \<Rightarrow> None | Some p \<Rightarrow> after n (kids d p))"

text \<open>\<open>c\<close> is a child of \<open>p\<close>: linked from both sides.\<close>

definition is_child :: "dom \<Rightarrow> node \<Rightarrow> node \<Rightarrow> bool" where
  "is_child d p c = (parentNode d c = Some p \<and> c \<in> set (kids d p))"

text \<open>
  \<^verbatim>\<open>parent.removeChild(node)\<close>: the DOM raises \<^verbatim>\<open>NotFoundError\<close> when the node's parent
  is not \<open>parent\<close>; otherwise the node leaves the child list and loses its parent.
\<close>

definition removeChild :: "dom \<Rightarrow> node \<Rightarrow> node \<Rightarrow> error + dom" where
  "removeChild d p n =
     (if is_child d p n
      then Inr (d\<lparr>kids := (kids d)(p := removeAll n (kids d p)),
                  parentNode := (parentNode d)(n := None)\<rparr>)
      else Inl NotFoundError)"

text \<open>A node that is moved leaves its old parent first.\<close>

definition detach :: "dom \<Rightarrow> node \<Rightarrow> dom" where
  "detach d n =
     (case parentNode d n of
        None \<Rightarrow> d
      | Some q \<Rightarrow> d\<lparr>kids := (kids d)(q := removeAll n (kids d q)),
                     parentNode := (parentNode d)(n := None)\<rparr>)"

text \<open>Putting \<open>n\<close> into a child list before the reference, or at the end for null.\<close>

fun place :: "node \<Rightarrow> node option \<Rightarrow> node list \<Rightarrow> node list" where
  "place n None ks = ks @ [n]"
| "place n (Some c) ks = takeWhile (\<lambda>x. x \<noteq> c) ks @ n # dropWhile (\<lambda>x. x \<noteq> c) ks"

text \<open>
  Modelled from the spec: \<^verbatim>\<open>DOMHelper.insertBefore(parent, node, reference)\<close> of
  \<^verbatim>\<open>./dom\<close>, which is not among the sources; the spec names it as the consumed call
  \<^verbatim>\<open>insertBefore(parent, node, referenceOrNull)\<close>, and it is the DOM's
  \<^verbatim>\<open>parent.insertBefore(node, reference)\<close>: \<^verbatim>\<open>NotFoundError\<close> when the reference is
  not null and not a child of \<open>parent\<close>; a reference that is the node itself stands for
  the node's next sibling; the node is moved, not copied.
\<close>

definition insertBefore :: "dom \<Rightarrow> node \<Rightarrow> node \<Rightarrow> node option \<Rightarrow> error + dom" where
  "insertBefore d p n r =
     (if (case r of None \<Rightarrow> False | Some c \<Rightarrow> \<not> is_child d p c) then Inl NotFoundError
      else let r' = (if r = Some n then nextSibling d n else r);
               d1 = detach d n
           in Inr (d1\<lparr>kids := (kids d1)(p := place n r' (kids d1 p)),
                      parentNode := (parentNode d1)(n \<mapsto> p)\<rparr>))"

text \<open>
  Modelled from the spec: \<^verbatim>\<open>DOMHelper.createComment('')\<close> of \<^verbatim>\<open>./dom\<close>, the consumed
  call \<^verbatim>\<open>createComment(text) -> Node\<close>: a new node, in no child list yet.
\<close>

definition createNode :: "dom \<Rightarrow> node \<times> dom" where
  "createNode d = (fresh d, d\<lparr>fresh := Suc (fresh d)\<rparr>)"

definition createComment :: "dom \<Rightarrow> node \<times> dom" where
  "createComment d = createNode d"

section \<open>Bounds and the range algorithms\<close>

text \<open>
  The interface \<^verbatim>\<open>Bounds\<close>: what its three accessors answer. \<^verbatim>\<open>ConcreteBounds\<close> and
  \<^verbatim>\<open>SingleNodeBounds\<close> are its two classes; null is \<open>None\<close>.
\<close>

record bounds =
  parentElement :: node
  firstNode :: "node option"
  lastNode :: "node option"

definition ConcreteBounds :: "node \<Rightarrow> node option \<Rightarrow> node option \<Rightarrow> bounds" where
  "ConcreteBounds parent firstN lastN =
     \<lparr>parentElement = parent, firstNode = firstN, lastNode = lastN\<rparr>"

definition SingleNodeBounds :: "node \<Rightarrow> node option \<Rightarrow> bounds" where
  "SingleNodeBounds parent n = \<lparr>parentElement = parent, firstNode = n, lastNode = n\<rparr>"

definition appendBounds :: "node \<Rightarrow> bounds" where
  "appendBounds parent = ConcreteBounds parent None None"

text \<open>
  The loop of \<^verbatim>\<open>clear\<close>: \<^verbatim>\<open>while (node) { let next = node.nextSibling;
  parent.removeChild(node); if (node === last) return next; node = next; } return null\<close>.
  Every round that does not raise takes a child out of \<open>parent\<close>, so the loop ends.
\<close>

function clear_loop :: "dom \<Rightarrow> node \<Rightarrow> node option \<Rightarrow> node option \<Rightarrow> error + dom \<times> node option" where
  "clear_loop d parent lastN None = Inr (d, None)"
| "clear_loop d parent lastN (Some node) =
     (let next = nextSibling d node in
      case removeChild d parent node of
        Inl e \<Rightarrow> Inl e
      | Inr d' \<Rightarrow> if Some node = lastN then Inr (d', next) else clear_loop d' parent lastN next)"
  by pat_completeness auto
termination
proof (relation "measure (\<lambda>(d, parent, lastN, node). length (kids d parent))")
  show "wf (measure (\<lambda>(d, parent, lastN, node). length (kids d parent)))" by simp
next
  fix d :: dom and parent node :: node and lastN nxt :: "node option" and d' :: dom
  assume "removeChild d parent node = Inr d'"
  then have "node \<in> set (kids d parent)" and "kids d' parent = removeAll node (kids d parent)"
    by (auto simp: removeChild_def is_child_def split: if_splits)
  then have "length (kids d' parent) < length (kids d parent)"
    by (simp add: length_removeAll_less)
  then show "((d', parent, lastN, nxt), (d, parent, lastN, Some node))
      \<in> measure (\<lambda>(d, parent, lastN, node). length (kids d parent))"
    by simp
qed

definition clear :: "dom \<Rightarrow> bounds \<Rightarrow> error + dom \<times> node option" where
  "clear d b = clear_loop d (parentElement b) (lastNode b) (firstNode b)"

text \<open>\<^verbatim>\<open>clearWithComment(bounds, dom)\<close>.\<close>

definition clearWithComment :: "dom \<Rightarrow> bounds \<Rightarrow> error + dom \<times> bounds" where
  "clearWithComment d b =
     (case clear d b of
        Inl e \<Rightarrow> Inl e
      | Inr (d1, nxt) \<Rightarrow>
          let parent = parentElement b;
              (comment, d2) = createComment d1
          in (case insertBefore d2 (parentElement b) comment nxt of
                Inl e \<Rightarrow> Inl e
              | Inr d3 \<Rightarrow> Inr (d3, ConcreteBounds parent (Some comment) (Some comment))))"

text \<open>
  The loop of \<^verbatim>\<open>insertBoundsBefore\<close>: \<^verbatim>\<open>while (current) { dom.insertBefore(parent,
  current, nextSibling); if (current === last) break; current = current.nextSibling; }\<close>.
  The sibling is read after the node has been moved, as the source reads it. Nothing in
  the loop itself bounds the number of rounds, so a run that does not end is \<open>None\<close>.
\<close>

partial_function (option) insertBoundsBefore_loop ::
  "dom \<Rightarrow> node \<Rightarrow> node option \<Rightarrow> node option \<Rightarrow> node option \<Rightarrow> (error + dom) option" where
  "insertBoundsBefore_loop d parent lastN nxt current =
     (case current of
        None \<Rightarrow> Some (Inr d)
      | Some c \<Rightarrow>
          (case insertBefore d parent c nxt of
             Inl e \<Rightarrow> Some (Inl e)
           | Inr d' \<Rightarrow>
               if Some c = lastN then Some (Inr d')
               else insertBoundsBefore_loop d' parent lastN nxt (nextSibling d' c)))"

text \<open>\<^verbatim>\<open>insertBoundsBefore(parent, bounds, reference, dom)\<close>; a null reference is \<open>None\<close>.\<close>

definition insertBoundsBefore :: "dom \<Rightarrow> node \<Rightarrow> bounds \<Rightarrow> bounds option \<Rightarrow> (error + dom) option" where
  "insertBoundsBefore d parent b reference =
     (let firstN = firstNode b;
          lastN = lastNode b;
          nxt = (case reference of Some r \<Rightarrow> firstNode r | None \<Rightarrow> None)
      in insertBoundsBefore_loop d parent lastN nxt firstN)"

section \<open>Render results and the world of a morph\<close>

text \<open>
  A template is known to the morph by its identity only (\<^verbatim>\<open>template === lastResult.template\<close>);
  \<open>width\<close> is the number of sibling nodes its evaluation puts into the document.
\<close>

record template =
  ident :: nat
  width :: nat

text \<open>
  A \<^verbatim>\<open>RenderResult\<close>: the template it came from and what its \<^verbatim>\<open>Bounds\<close> accessors answer.
  Results are objects that patch themselves in place, and a morph reaches the same
  result through \<^verbatim>\<open>lastResult\<close> and through the bounds of \<^verbatim>\<open>HasContent\<close>, so results
  live in a store and are named by their address.
\<close>

record render_result =
  template :: template
  extent :: bounds

text \<open>What the evaluation engine was asked to do, in order: the spy on the engine.\<close>

datatype call = Evaluate template "node option" | Rerender nat

record world =
  doc :: dom
  results :: "nat \<Rightarrow> render_result"
  allocated :: nat
  calls :: "call list"

text \<open>A reference of type \<^verbatim>\<open>Bounds\<close>: an immutable bounds object, or a render result.\<close>

datatype bounds_ref = Plain bounds | Result nat

fun the_bounds :: "world \<Rightarrow> bounds_ref \<Rightarrow> bounds" where
  "the_bounds w (Plain b) = b"
| "the_bounds w (Result a) = extent (results w a)"

fun first_of :: "node list \<Rightarrow> node option" where
  "first_of [] = None"
| "first_of (x # xs) = Some x"

definition last_of :: "node list \<Rightarrow> node option" where
  "last_of xs = (if xs = [] then None else Some (last xs))"

text \<open>
  Modelled from the spec: the nodes of \<^verbatim>\<open>template.evaluate\<close> (below). \<open>k\<close> nodes are
  created, each put before the anchor, so they end up in the order of creation.
\<close>

fun insert_new :: "dom \<Rightarrow> node \<Rightarrow> node option \<Rightarrow> nat \<Rightarrow> error + dom \<times> node list" where
  "insert_new d p a 0 = Inr (d, [])"
| "insert_new d p a (Suc k) =
     (let (n, d1) = createNode d in
      case insertBefore d1 p n a of
        Inl e \<Rightarrow> Inl e
      | Inr d2 \<Rightarrow>
          (case insert_new d2 p a k of
             Inl e \<Rightarrow> Inl e
           | Inr (d3, ns) \<Rightarrow> Inr (d3, n # ns)))"

text \<open>
  Modelled from the spec: \<^verbatim>\<open>template.evaluate(morph, nextSibling)\<close> of \<^verbatim>\<open>./template\<close> and
  \<^verbatim>\<open>./render\<close>, which are not among the sources. The spec: it "evaluates \<^verbatim>\<open>template\<close>
  anchored at \<^verbatim>\<open>nextSibling\<close>" under the morph and returns a \<^verbatim>\<open>RenderResult\<close> that
  "exposes \<^verbatim>\<open>firstNode()\<close>, \<^verbatim>\<open>lastNode()\<close>, \<^verbatim>\<open>rerender()\<close>, and a \<^verbatim>\<open>template\<close> identity".
  So: the template's nodes are created and inserted before the anchor in the morph's
  parent, a new result records the template and the first and last of those nodes
  (null for none), and the call is logged.
\<close>

definition evaluate :: "world \<Rightarrow> template \<Rightarrow> node \<Rightarrow> node option \<Rightarrow> error + world \<times> nat" where
  "evaluate w t p nxt =
     (case insert_new (doc w) p nxt (width t) of
        Inl e \<Rightarrow> Inl e
      | Inr (d', ns) \<Rightarrow>
          let a = allocated w in
          Inr (w\<lparr>doc := d',
                 results := (results w)(a := \<lparr>template = t,
                    extent = \<lparr>parentElement = p, firstNode = first_of ns, lastNode = last_of ns\<rparr>\<rparr>),
                 allocated := Suc a,
                 calls := calls w @ [Evaluate t nxt]\<rparr>, a))"

text \<open>
  \<^verbatim>\<open>result.rerender()\<close>: the result "owns its own internal patching", which the spec
  leaves to the engine. The patching is a parameter \<open>patch\<close>: from the result and the
  document to the patched document and the result's new extent. The call is logged.
\<close>

definition rerender :: "(render_result \<Rightarrow> dom \<Rightarrow> dom \<times> bounds) \<Rightarrow> world \<Rightarrow> nat \<Rightarrow> world" where
  "rerender patch w a =
     (let (d', b') = patch (results w a) (doc w) in
      w\<lparr>doc := d',
        results := (results w)(a := (results w a)\<lparr>extent := b'\<rparr>),
        calls := calls w @ [Rerender a]\<rparr>)"

section \<open>EmptyableMorph and its three operation states\<close>

text \<open>
  \<^verbatim>\<open>Appending\<close>, \<^verbatim>\<open>Empty\<close> (with its comment) and \<^verbatim>\<open>HasContent\<close> (with its bounds).
  The back reference \<^verbatim>\<open>this.parent\<close> of a state object is only used to read
  \<^verbatim>\<open>parent.parentNode\<close> and to assign \<^verbatim>\<open>parent.currentOperations\<close>: the methods below
  take the former and return the latter.
\<close>

datatype ops = Appending | Empty node | HasContent bounds_ref

text \<open>
  A morph: \<^verbatim>\<open>parentNode\<close> and \<^verbatim>\<open>currentOperations\<close>. Of \<^verbatim>\<open>frame\<close> only \<^verbatim>\<open>frame.dom()\<close>
  is used, which is the document of the world; the private fields \<^verbatim>\<open>comment\<close> and
  \<^verbatim>\<open>bounds\<close> of \<^verbatim>\<open>EmptyableMorph\<close> are never read. \<^verbatim>\<open>TemplateMorph\<close> adds
  \<^verbatim>\<open>lastResult\<close>, the address of a render result or null.
\<close>

record morph =
  morph_parentNode :: node
  currentOperations :: ops

record template_morph = morph +
  lastResult :: "nat option"

fun ops_firstNode :: "world \<Rightarrow> ops \<Rightarrow> node option" where
  "ops_firstNode w Appending = None"
| "ops_firstNode w (Empty comment) = Some comment"
| "ops_firstNode w (HasContent b) = firstNode (the_bounds w b)"

fun ops_lastNode :: "world \<Rightarrow> ops \<Rightarrow> node option" where
  "ops_lastNode w Appending = None"
| "ops_lastNode w (Empty comment) = Some comment"
| "ops_lastNode w (HasContent b) = lastNode (the_bounds w b)"

fun ops_nextSiblingForContent :: "world \<Rightarrow> ops \<Rightarrow> node option" where
  "ops_nextSiblingForContent w Appending = None"
| "ops_nextSiblingForContent w (Empty comment) = Some comment"
| "ops_nextSiblingForContent w (HasContent b) = firstNode (the_bounds w b)"

text \<open>
  The constructor of \<^verbatim>\<open>Empty\<close>: \<^verbatim>\<open>dom.createComment('')\<close>, then
  \<^verbatim>\<open>dom.insertBefore(parent.parentNode, comment, nextSibling)\<close>.
\<close>

definition new_Empty :: "world \<Rightarrow> node \<Rightarrow> node option \<Rightarrow> error + world \<times> ops" where
  "new_Empty w parentNode_of_morph nxt =
     (let (comment, d1) = createComment (doc w) in
      case insertBefore d1 parentNode_of_morph comment nxt of
        Inl e \<Rightarrow> Inl e
      | Inr d2 \<Rightarrow> Inr (w\<lparr>doc := d2\<rparr>, Empty comment))"

fun ops_didBecomeEmpty :: "world \<Rightarrow> node \<Rightarrow> ops \<Rightarrow> error + world \<times> ops" where
  "ops_didBecomeEmpty w p Appending = new_Empty w p None"
| "ops_didBecomeEmpty w p (Empty comment) = Inr (w, Empty comment)"
| "ops_didBecomeEmpty w p (HasContent b) =
     (case clear (doc w) (the_bounds w b) of
        Inl e \<Rightarrow> Inl e
      | Inr (d', nxt) \<Rightarrow> new_Empty (w\<lparr>doc := d'\<rparr>) p nxt)"

text \<open>
  In \<^verbatim>\<open>Empty\<close>, \<^verbatim>\<open>comment.parentNode.removeChild(comment)\<close> reads the comment's parent:
  a \<^verbatim>\<open>TypeError\<close> when it is null.
\<close>

fun ops_didInsertContent :: "world \<Rightarrow> ops \<Rightarrow> bounds_ref \<Rightarrow> error + world \<times> ops" where
  "ops_didInsertContent w Appending b = Inr (w, HasContent b)"
| "ops_didInsertContent w (Empty comment) b =
     (case parentNode (doc w) comment of
        None \<Rightarrow> Inl TypeError
      | Some q \<Rightarrow>
          (case removeChild (doc w) q comment of
             Inl e \<Rightarrow> Inl e
           | Inr d' \<Rightarrow> Inr (w\<lparr>doc := d'\<rparr>, HasContent b)))"
| "ops_didInsertContent w (HasContent old) b =
     (case clear (doc w) (the_bounds w old) of
        Inl e \<Rightarrow> Inl e
      | Inr (d', nxt) \<Rightarrow> Inr (w\<lparr>doc := d'\<rparr>, HasContent b))"

text \<open>The methods of \<^verbatim>\<open>EmptyableMorph\<close>; a new morph starts with \<^verbatim>\<open>new Appending(...)\<close>.\<close>

definition new_EmptyableMorph :: "node \<Rightarrow> morph" where
  "new_EmptyableMorph p = \<lparr>morph_parentNode = p, currentOperations = Appending\<rparr>"

definition EmptyableMorph_firstNode :: "world \<Rightarrow> 'a morph_scheme \<Rightarrow> node option" where
  "EmptyableMorph_firstNode w m = ops_firstNode w (currentOperations m)"

definition EmptyableMorph_lastNode :: "world \<Rightarrow> 'a morph_scheme \<Rightarrow> node option" where
  "EmptyableMorph_lastNode w m = ops_lastNode w (currentOperations m)"

text \<open>\<^verbatim>\<open>this.lastNode().nextSibling\<close>: a \<^verbatim>\<open>TypeError\<close> when \<^verbatim>\<open>lastNode()\<close> is null.\<close>

definition EmptyableMorph_nextSibling :: "world \<Rightarrow> 'a morph_scheme \<Rightarrow> error + node option" where
  "EmptyableMorph_nextSibling w m =
     (case EmptyableMorph_lastNode w m of
        None \<Rightarrow> Inl TypeError
      | Some n \<Rightarrow> Inr (nextSibling (doc w) n))"

definition EmptyableMorph_didBecomeEmpty ::
  "world \<Rightarrow> 'a morph_scheme \<Rightarrow> error + world \<times> 'a morph_scheme" where
  "EmptyableMorph_didBecomeEmpty w m =
     (case ops_didBecomeEmpty w (morph_parentNode m) (currentOperations m) of
        Inl e \<Rightarrow> Inl e
      | Inr (w', s) \<Rightarrow> Inr (w', m\<lparr>currentOperations := s\<rparr>))"

definition EmptyableMorph_nextSiblingForContent :: "world \<Rightarrow> 'a morph_scheme \<Rightarrow> node option" where
  "EmptyableMorph_nextSiblingForContent w m = ops_nextSiblingForContent w (currentOperations m)"

definition EmptyableMorph_didInsertContent ::
  "world \<Rightarrow> 'a morph_scheme \<Rightarrow> bounds_ref \<Rightarrow> error + world \<times> 'a morph_scheme" where
  "EmptyableMorph_didInsertContent w m b =
     (case ops_didInsertContent w (currentOperations m) b of
        Inl e \<Rightarrow> Inl e
      | Inr (w', s) \<Rightarrow> Inr (w', m\<lparr>currentOperations := s\<rparr>))"

section \<open>TemplateMorph\<close>

definition new_TemplateMorph :: "node \<Rightarrow> template_morph" where
  "new_TemplateMorph p =
     \<lparr>morph_parentNode = p, currentOperations = Appending, lastResult = None\<rparr>"

definition TemplateMorph_firstNode :: "world \<Rightarrow> template_morph \<Rightarrow> node option" where
  "TemplateMorph_firstNode w m =
     (case lastResult m of
        Some a \<Rightarrow> firstNode (extent (results w a))
      | None \<Rightarrow> EmptyableMorph_firstNode w m)"

definition TemplateMorph_lastNode :: "world \<Rightarrow> template_morph \<Rightarrow> node option" where
  "TemplateMorph_lastNode w m =
     (case lastResult m of
        Some a \<Rightarrow> lastNode (extent (results w a))
      | None \<Rightarrow> EmptyableMorph_lastNode w m)"

text \<open>
  \<^verbatim>\<open>nextSibling()\<close> is inherited from \<^verbatim>\<open>EmptyableMorph\<close>; its \<^verbatim>\<open>this.lastNode()\<close> is
  the override of \<^verbatim>\<open>TemplateMorph\<close>.
\<close>

definition TemplateMorph_nextSibling :: "world \<Rightarrow> template_morph \<Rightarrow> error + node option" where
  "TemplateMorph_nextSibling w m =
     (case TemplateMorph_lastNode w m of
        None \<Rightarrow> Inl TypeError
      | Some n \<Rightarrow> Inr (nextSibling (doc w) n))"

definition appendTemplate ::
  "world \<Rightarrow> template_morph \<Rightarrow> template \<Rightarrow> node option \<Rightarrow> error + world \<times> template_morph" where
  "appendTemplate w m t nxt =
     (case evaluate w t (morph_parentNode m) nxt of
        Inl e \<Rightarrow> Inl e
      | Inr (w1, a) \<Rightarrow> EmptyableMorph_didInsertContent w1 (m\<lparr>lastResult := Some a\<rparr>) (Result a))"

definition updateTemplate ::
  "(render_result \<Rightarrow> dom \<Rightarrow> dom \<times> bounds) \<Rightarrow> world \<Rightarrow> template_morph \<Rightarrow> template
     \<Rightarrow> error + world \<times> template_morph" where
  "updateTemplate patch w m t =
     (case lastResult m of
        None \<Rightarrow>
          let nxt = EmptyableMorph_nextSiblingForContent w m in appendTemplate w m t nxt
      | Some a \<Rightarrow>
          if ident t = ident (template (results w a)) then Inr (rerender patch w a, m)
          else let nxt = EmptyableMorph_nextSiblingForContent w m in appendTemplate w m t nxt)"

definition TemplateMorph_didBecomeEmpty :: "world \<Rightarrow> template_morph \<Rightarrow> error + world \<times> template_morph" where
  "TemplateMorph_didBecomeEmpty w m =
     (case EmptyableMorph_didBecomeEmpty w m of
        Inl e \<Rightarrow> Inl e
      | Inr (w', m') \<Rightarrow> Inr (w', m'\<lparr>lastResult := None\<rparr>))"

section \<open>Well-formed bounds\<close>

text \<open>
  The nodes of a bounds, found the way the spec says a well-formed bounds is built: from
  \<open>firstNode\<close> along \<open>nextSibling\<close>, every node a child of \<open>parentElement\<close>, until
  \<open>lastNode\<close> is met. \<open>None\<close> when \<open>lastNode\<close> is never met (the walk has as many rounds
  as the parent has children). A bounds with both ends null has no nodes.
\<close>

fun walk :: "dom \<Rightarrow> node \<Rightarrow> node \<Rightarrow> node \<Rightarrow> nat \<Rightarrow> node list option" where
  "walk d p n l 0 = None"
| "walk d p n l (Suc k) =
     (if \<not> is_child d p n then None
      else if n = l then Some [n]
      else (case nextSibling d n of
              None \<Rightarrow> None
            | Some m \<Rightarrow> map_option (\<lambda>ns. n # ns) (walk d p m l k)))"

definition bounds_nodes :: "dom \<Rightarrow> bounds \<Rightarrow> node list option" where
  "bounds_nodes d b =
     (case (firstNode b, lastNode b) of
        (None, None) \<Rightarrow> Some []
      | (Some f, Some l) \<Rightarrow> walk d (parentElement b) f l (length (kids d (parentElement b)))
      | _ \<Rightarrow> None)"

text \<open>The child list of \<open>p\<close> is that of a document: no node twice, every child linked back.\<close>

definition siblings_ok :: "dom \<Rightarrow> node \<Rightarrow> bool" where
  "siblings_ok d p = (distinct (kids d p) \<and> (\<forall>n\<in>set (kids d p). parentNode d n = Some p))"

text \<open>The document after the nodes \<open>ns\<close> have left \<open>p\<close>, whose children are then \<open>ks\<close>.\<close>

definition without :: "dom \<Rightarrow> node \<Rightarrow> node list \<Rightarrow> node list \<Rightarrow> dom" where
  "without d p ns ks =
     d\<lparr>kids := (kids d)(p := ks),
       parentNode := (\<lambda>n. if n \<in> set ns then None else parentNode d n)\<rparr>"

section \<open>The region of a template morph\<close>

text \<open>
  No node that is still to be created has a parent.
\<close>

definition unused :: "dom \<Rightarrow> bool" where
  "unused d = (\<forall>n. fresh d \<le> n \<longrightarrow> parentNode d n = None)"

text \<open>
  The morph \<open>m\<close> stands in its parent between \<open>pre\<close> and \<open>post\<close> with the nodes \<open>reg\<close>:
  none while appending, the placeholder comment in \<open>Empty\<close>, the nodes of its bounds
  in \<open>HasContent\<close>. A morph without nodes has no place among the children, so all of
  them are counted as \<open>pre\<close>. A render result that the morph holds has been allocated.
\<close>

definition occupies :: "world \<Rightarrow> template_morph \<Rightarrow> node list \<Rightarrow> node list \<Rightarrow> node list \<Rightarrow> bool" where
  "occupies w m pre reg post =
     (kids (doc w) (morph_parentNode m) = pre @ reg @ post
      \<and> siblings_ok (doc w) (morph_parentNode m) \<and> unused (doc w)
      \<and> (reg = [] \<longrightarrow> post = [])
      \<and> (case currentOperations m of
            Appending \<Rightarrow> reg = []
          | Empty c \<Rightarrow> reg = [c]
          | HasContent b \<Rightarrow>
              the_bounds w b = \<lparr>parentElement = morph_parentNode m, firstNode = first_of reg,
                                lastNode = last_of reg\<rparr>
              \<and> (case b of Plain x \<Rightarrow> True | Result a \<Rightarrow> a < allocated w)))"

text \<open>
  The document after new nodes \<open>ns\<close> have been put under \<open>p\<close>, and after the nodes
  \<open>old\<close> have left \<open>p\<close> as well; \<open>ks\<close> are the children of \<open>p\<close> then.
\<close>

definition with_new :: "dom \<Rightarrow> node \<Rightarrow> node list \<Rightarrow> node list \<Rightarrow> dom" where
  "with_new d p ns ks =
     d\<lparr>kids := (kids d)(p := ks),
       parentNode := (\<lambda>n. if n \<in> set ns then Some p else parentNode d n),
       fresh := fresh d + length ns\<rparr>"

definition swapped :: "dom \<Rightarrow> node \<Rightarrow> node list \<Rightarrow> node list \<Rightarrow> node list \<Rightarrow> dom" where
  "swapped d p old new ks =
     d\<lparr>kids := (kids d)(p := ks),
       parentNode := (\<lambda>n. if n \<in> set new then Some p else if n \<in> set old then None
                            else parentNode d n),
       fresh := fresh d + length new\<rparr>"

text \<open>
  The world after \<open>appendTemplate\<close> of \<open>t\<close> by a morph with the region \<open>reg\<close>: the new
  nodes in the place of \<open>reg\<close>, a new result for them, one more call of the engine.
\<close>

definition after_append :: "world \<Rightarrow> node \<Rightarrow> template \<Rightarrow> node list \<Rightarrow> node list \<Rightarrow> node list \<Rightarrow> world" where
  "after_append w p t pre reg post =
     (let new = [fresh (doc w)..<fresh (doc w) + width t] in
      w\<lparr>doc := swapped (doc w) p reg new (pre @ new @ post),
        results := (results w)(allocated w := \<lparr>template = t,
           extent = \<lparr>parentElement = p, firstNode = first_of new, lastNode = last_of new\<rparr>\<rparr>),
        allocated := Suc (allocated w),
        calls := calls w @ [Evaluate t (first_of (reg @ post))]\<rparr>)"


section \<open>Example documents\<close>

text \<open>A parent \<open>10\<close> with the children \<open>11, 12, 13, 14\<close>; the next new node is \<open>15\<close>.\<close>

definition doc4 :: dom where
  "doc4 = \<lparr>kids = (\<lambda>_. [])(10 := [11, 12, 13, 14]),
            parentNode = (\<lambda>n. if 11 \<le> n \<and> n \<le> 14 then Some 10 else None),
            fresh = 15\<rparr>"

text \<open>
  The same parent after \<open>11\<close> alone has been moved to the end, and after \<open>12\<close> alone has
  been moved before \<open>14\<close>.
\<close>

definition doc4_moved_end :: dom where
  "doc4_moved_end = \<lparr>kids = (\<lambda>_. [])(10 := [12, 13, 14, 11]),
            parentNode = (\<lambda>n. if 11 \<le> n \<and> n \<le> 14 then Some 10 else None),
            fresh = 15\<rparr>"

definition doc4_moved_before :: dom where
  "doc4_moved_before = \<lparr>kids = (\<lambda>_. [])(10 := [11, 13, 12, 14]),
            parentNode = (\<lambda>n. if 11 \<le> n \<and> n \<le> 14 then Some 10 else None),
            fresh = 15\<rparr>"

text \<open>
  A world with that document and no render result yet, and the document after a
  placeholder comment \<open>15\<close> has been put at the end of the parent.
\<close>

definition world4 :: world where
  "world4 = \<lparr>doc = doc4, results = (\<lambda>_. \<lparr>template = \<lparr>ident = 0, width = 0\<rparr>,
       extent = \<lparr>parentElement = 10, firstNode = None, lastNode = None\<rparr>\<rparr>), allocated = 0, calls = []\<rparr>"

definition doc4_placeholder :: dom where
  "doc4_placeholder = \<lparr>kids = (\<lambda>_. [])(10 := [11, 12, 13, 14, 15]),
            parentNode = (\<lambda>n. if 11 \<le> n \<and> n \<le> 15 then Some 10 else None),
            fresh = 16\<rparr>"

text \<open>
  A template morph whose placeholder is the node \<open>12\<close>, two templates, a patching that
  leaves document and result as they are, and world and morph after the first template
  has been appended.
\<close>

definition tm_placeholder :: template_morph where
  "tm_placeholder = \<lparr>morph_parentNode = 10, currentOperations = Empty 12, lastResult = None\<rparr>"

definition tpl1 :: template where
  "tpl1 = \<lparr>ident = 1, width = 2\<rparr>"


definition keep :: "render_result \<Rightarrow> dom \<Rightarrow> dom \<times> bounds" where
  "keep r d = (d, extent r)"

definition world4_tpl1 :: world where
  "world4_tpl1 = after_append world4 10 tpl1 [11] [12] [13, 14]"

definition tm_tpl1 :: template_morph where
  "tm_tpl1 = tm_placeholder\<lparr>lastResult := Some 0, currentOperations := HasContent (Result 0)\<rparr>"


definition tpl0 :: template where
  "tpl0 = \<lparr>ident = 3, width = 0\<rparr>"




section \<open>The range algorithms: clear\<close>

lemma after_here: "x \<notin> set pre \<Longrightarrow> after x (pre @ x # rest) = first_of rest"
proof (induction pre)
  case Nil
  then show ?case by (cases rest) simp_all
next
  case (Cons a pre)
  then show ?case by (cases "pre @ x # rest") auto
qed

text \<open>
  The loop on a run \<open>mid\<close> of the child list: it removes the run and returns the node
  after it.
\<close>

lemma clear_loop_range:
  "kids d p = pre @ mid @ post \<Longrightarrow> distinct (kids d p) \<Longrightarrow>
   \<forall>n\<in>set mid. parentNode d n = Some p \<Longrightarrow>
   clear_loop d p (last_of mid) (first_of mid) =
     Inr (without d p mid (pre @ post), if mid = [] then None else first_of post)"
proof (induction mid arbitrary: d)
  case Nil
  then have "(kids d)(p := pre @ post) = kids d" by (auto simp: fun_eq_iff)
  then show ?case by (simp add: without_def last_of_def)
next
  case (Cons x xs)
  let ?d1 = "d\<lparr>kids := (kids d)(p := pre @ xs @ post), parentNode := (parentNode d)(x := None)\<rparr>"
  from Cons.prems have nx: "nextSibling d x = first_of (xs @ post)"
    by (simp add: nextSibling_def after_here)
  from Cons.prems have rm: "removeChild d p x = Inr ?d1"
    by (simp add: removeChild_def is_child_def removeAll_id)
  show ?case
  proof (cases "xs = []")
    case True
    have "?d1 = without d p [x] (pre @ post)"
      by (simp add: without_def True fun_eq_iff)
    with True nx rm show ?thesis by (simp add: last_of_def)
  next
    case False
    from Cons.prems False have ne: "Some x \<noteq> last_of (x # xs)"
      using last_in_set[of xs] by (auto simp: last_of_def)
    have lo: "last_of (x # xs) = last_of xs"
      using False by (simp add: last_of_def)
    have ih: "clear_loop ?d1 p (last_of xs) (first_of xs) =
        Inr (without ?d1 p xs (pre @ post), if xs = [] then None else first_of post)"
      using Cons.prems by (intro Cons.IH) auto
    have w: "without ?d1 p xs (pre @ post) = without d p (x # xs) (pre @ post)"
      by (auto simp: without_def fun_eq_iff)
    from False nx have nx': "nextSibling d x = first_of xs" by (cases xs) simp_all
    have "clear_loop d p (last_of (x # xs)) (first_of (x # xs)) =
        clear_loop ?d1 p (last_of xs) (first_of xs)"
      using rm nx' ne by (simp add: lo)
    with ih w False show ?thesis by simp
  qed
qed


text \<open>A walk that meets \<open>lastNode\<close> has gone through a run of the child list.\<close>

lemma after_split: "after n ks = Some m \<Longrightarrow> \<exists>a b. ks = a @ n # m # b"
proof (induction n ks rule: after.induct)
  case (3 n x y ys)
  show ?case
  proof (cases "x = n")
    case True
    with 3 show ?thesis by auto
  next
    case False
    with 3 obtain a b where "y # ys = a @ n # m # b" by auto
    then have "x # y # ys = (x # a) @ n # m # b" by simp
    then show ?thesis by blast
  qed
qed simp_all

lemma walk_decomp:
  "distinct (kids d p) \<Longrightarrow> walk d p f l k = Some ns \<Longrightarrow>
   \<exists>pre post. kids d p = pre @ ns @ post \<and> first_of ns = Some f \<and> last_of ns = Some l
      \<and> (\<forall>n\<in>set ns. parentNode d n = Some p)"
proof (induction k arbitrary: f ns)
  case 0
  then show ?case by simp
next
  case (Suc k)
  from Suc.prems have ch: "is_child d p f" by (simp split: if_splits)
  show ?case
  proof (cases "f = l")
    case True
    with Suc.prems ch have ns: "ns = [f]" by simp
    from ch obtain pre post where "kids d p = pre @ f # post"
      by (auto simp: is_child_def dest: split_list)
    with ns True ch show ?thesis by (auto simp: last_of_def is_child_def)
  next
    case False
    with Suc.prems ch obtain m ns' where nx: "nextSibling d f = Some m"
      and w: "walk d p m l k = Some ns'" and ns: "ns = f # ns'"
      by (auto split: option.splits)
    from Suc.IH[OF Suc.prems(1) w] obtain pre post where
      k: "kids d p = pre @ ns' @ post" and fo: "first_of ns' = Some m"
      and lo: "last_of ns' = Some l" and pa: "\<forall>n\<in>set ns'. parentNode d n = Some p"
      by blast
    from fo obtain r where r: "ns' = m # r" by (cases ns') auto
    from nx ch have "after f (kids d p) = Some m" by (simp add: nextSibling_def is_child_def)
    then obtain a b where ab: "kids d p = a @ f # m # b" by (auto dest: after_split)
    from Suc.prems(1) k r have m1: "m \<notin> set pre" "m \<notin> set (r @ post)" by auto
    from Suc.prems(1) ab have m2: "m \<notin> set (a @ [f])" by auto
    from k r ab have "pre @ m # (r @ post) = (a @ [f]) @ m # b" by simp
    with m1 m2 have "pre = a @ [f]"
      using append_Cons_eq_iff[of m pre "r @ post" "a @ [f]" b] by blast
    with k have "kids d p = a @ (f # ns') @ post" by simp
    moreover from lo r have "last_of (f # ns') = Some l" by (simp add: last_of_def)
    moreover from pa ch have "\<forall>n\<in>set (f # ns'). parentNode d n = Some p" by (simp add: is_child_def)
    ultimately show ?thesis using ns by auto
  qed
qed

lemma bounds_nodes_decomp:
  assumes "distinct (kids d (parentElement b))" and "bounds_nodes d b = Some ns"
  shows "\<exists>pre post. kids d (parentElement b) = pre @ ns @ post
      \<and> firstNode b = first_of ns \<and> lastNode b = last_of ns
      \<and> (\<forall>n\<in>set ns. parentNode d n = Some (parentElement b))"
proof (cases "firstNode b")
  case None
  with assms(2) have "ns = []" "lastNode b = None"
    by (auto simp: bounds_nodes_def split: option.splits)
  with None show ?thesis by (auto simp: last_of_def)
next
  case (Some f)
  with assms(2) obtain l where l: "lastNode b = Some l"
    and w: "walk d (parentElement b) f l (length (kids d (parentElement b))) = Some ns"
    by (auto simp: bounds_nodes_def split: option.splits)
  from walk_decomp[OF assms(1) w] Some l show ?thesis by auto
qed

text \<open>
  And every run of a child list is walked: the bounds over a run is well-formed, with
  the run as its nodes.
\<close>

lemma walk_run:
  "kids d p = pre @ (x # xs) @ post \<Longrightarrow> siblings_ok d p \<Longrightarrow> length (x # xs) \<le> k \<Longrightarrow>
   walk d p x (last (x # xs)) k = Some (x # xs)"
proof (induction xs arbitrary: x pre k)
  case Nil
  then obtain j where "k = Suc j" by (cases k) auto
  with Nil show ?case by (simp add: is_child_def siblings_ok_def)
next
  case (Cons y ys)
  from Cons.prems obtain j where k: "k = Suc j" and j: "length (y # ys) \<le> j"
    by (cases k) auto
  from Cons.prems have ch: "is_child d p x" by (simp add: is_child_def siblings_ok_def)
  from Cons.prems have "x \<notin> set (y # ys)" by (auto simp: siblings_ok_def)
  then have ne: "x \<noteq> last (x # y # ys)"
    using last_in_set[of "y # ys"] by auto
  from Cons.prems have nx: "nextSibling d x = Some y"
    using after_here[of x pre "(y # ys) @ post"] by (simp add: nextSibling_def siblings_ok_def)
  from Cons.prems have "kids d p = (pre @ [x]) @ (y # ys) @ post" by simp
  from Cons.IH[OF this Cons.prems(2) j] have "walk d p y (last (y # ys)) j = Some (y # ys)" .
  with ch ne nx k show ?case by simp
qed

lemma bounds_nodes_run:
  assumes "kids d p = pre @ ns @ post" and "siblings_ok d p"
  shows "bounds_nodes d \<lparr>parentElement = p, firstNode = first_of ns, lastNode = last_of ns\<rparr> = Some ns"
proof (cases ns)
  case Nil
  then show ?thesis by (simp add: bounds_nodes_def last_of_def)
next
  case (Cons x xs)
  with assms have "walk d p x (last (x # xs)) (length (kids d p)) = Some (x # xs)"
    by (intro walk_run[of d p pre x xs post]) simp_all
  with Cons show ?thesis by (simp add: bounds_nodes_def last_of_def)
qed

text \<open>
  C1: for a well-formed bounds over the \<open>N\<close> nodes \<open>ns\<close> (the last node met from the first
  along \<open>nextSibling\<close> under \<open>parentElement\<close>) in a parent with \<open>M\<close> children, \<open>clear\<close>
  returns normally, the parent keeps exactly its children outside \<open>ns\<close>, in their order,
  so \<open>M - N\<close> of them, the removed nodes have no parent any more, every other node and
  every other child list is untouched, and the value returned is what
  \<open>lastNode().nextSibling\<close> was before (null for the bounds with both ends null).
\<close>

theorem clear_removes_bounds:
  assumes "distinct (kids d (parentElement b))" and "bounds_nodes d b = Some ns"
  shows "\<exists>d'. clear d b =
            Inr (d', case lastNode b of None \<Rightarrow> None | Some l \<Rightarrow> nextSibling d l)
      \<and> kids d' (parentElement b) = filter (\<lambda>n. n \<notin> set ns) (kids d (parentElement b))
      \<and> length (kids d' (parentElement b)) = length (kids d (parentElement b)) - length ns
      \<and> (\<forall>n\<in>set ns. parentNode d' n = None)
      \<and> (\<forall>n. n \<notin> set ns \<longrightarrow> parentNode d' n = parentNode d n)
      \<and> (\<forall>q. q \<noteq> parentElement b \<longrightarrow> kids d' q = kids d q)
      \<and> fresh d' = fresh d"
proof -
  let ?p = "parentElement b"
  from bounds_nodes_decomp[OF assms] obtain pre post where
    k: "kids d ?p = pre @ ns @ post" and f: "firstNode b = first_of ns"
    and l: "lastNode b = last_of ns" and pa: "\<forall>n\<in>set ns. parentNode d n = Some ?p"
    by blast
  have c: "clear d b = Inr (without d ?p ns (pre @ post), if ns = [] then None else first_of post)"
    using clear_loop_range[OF k assms(1) pa] by (simp add: clear_def f l)
  have nx: "(case lastNode b of None \<Rightarrow> None | Some l \<Rightarrow> nextSibling d l)
      = (if ns = [] then None else first_of post)"
  proof (cases "ns = []")
    case True
    with l show ?thesis by (simp add: last_of_def)
  next
    case False
    then have kk: "kids d ?p = (pre @ butlast ns) @ last ns # post"
      using k by simp
    from assms(1) have nin: "last ns \<notin> set (pre @ butlast ns)"
      using False k by (metis append.assoc append_butlast_last_id distinct_append not_distinct_conv_prefix)
    have af: "after (last ns) (kids d ?p) = first_of post"
      unfolding kk by (rule after_here[OF nin])
    from False pa have "parentNode d (last ns) = Some ?p" by simp
    with af have "nextSibling d (last ns) = first_of post"
      by (simp add: nextSibling_def)
    with False l show ?thesis by (simp add: last_of_def)
  qed
  have fl: "filter (\<lambda>n. n \<notin> set ns) (kids d ?p) = pre @ post"
  proof -
    from assms(1) k have "filter (\<lambda>n. n \<notin> set ns) pre = pre"
      "filter (\<lambda>n. n \<notin> set ns) post = post" "filter (\<lambda>n. n \<notin> set ns) ns = []"
      by (auto simp: filter_id_conv filter_empty_conv)
    with k show ?thesis by simp
  qed
  show ?thesis
    using c nx fl k by (auto simp: without_def)
qed

theorem clear_removes_bounds_witness:
  "distinct (kids doc4 10) \<and> bounds_nodes doc4 (ConcreteBounds 10 (Some 12) (Some 13)) = Some [12, 13]
   \<and> (\<exists>d'. clear doc4 (ConcreteBounds 10 (Some 12) (Some 13)) = Inr (d', Some 14)
         \<and> kids d' 10 = [11, 14] \<and> parentNode d' 12 = None \<and> parentNode d' 13 = None)"
proof -
  have h1: "distinct (kids doc4 (parentElement (ConcreteBounds 10 (Some 12) (Some 13))))"
    by (simp add: doc4_def ConcreteBounds_def)
  have h2: "bounds_nodes doc4 (ConcreteBounds 10 (Some 12) (Some 13)) = Some [12, 13]"
    by (simp add: bounds_nodes_def doc4_def ConcreteBounds_def is_child_def nextSibling_def)
  have nx: "nextSibling doc4 13 = Some 14"
    by (simp add: nextSibling_def doc4_def)
  show ?thesis
    using clear_removes_bounds[OF h1 h2] h1 h2 nx
    by (auto simp: ConcreteBounds_def doc4_def)
qed

section \<open>clear on a malformed bounds\<close>







section \<open>clearWithComment\<close>

lemma next_after_range:
  assumes "kids d p = pre @ ns @ post" and "distinct (kids d p)" and "ns \<noteq> []"
    and "parentNode d (last ns) = Some p"
  shows "nextSibling d (last ns) = first_of post"
proof -
  from assms(1,3) have kk: "kids d p = (pre @ butlast ns) @ last ns # post" by simp
  from assms(2) have "distinct ((pre @ butlast ns) @ last ns # post)" by (simp only: kk)
  then have nin: "last ns \<notin> set (pre @ butlast ns)" by auto
  have "after (last ns) (kids d p) = first_of post"
    unfolding kk by (rule after_here[OF nin])
  with assms(4) show ?thesis by (simp add: nextSibling_def)
qed

lemma filter_out_range:
  assumes "distinct (pre @ ns @ post)"
  shows "filter (\<lambda>n. n \<notin> set ns) (pre @ ns @ post) = pre @ post"
proof -
  from assms have "filter (\<lambda>n. n \<notin> set ns) pre = pre"
    "filter (\<lambda>n. n \<notin> set ns) post = post" "filter (\<lambda>n. n \<notin> set ns) ns = []"
    by (auto simp: filter_id_conv filter_empty_conv)
  then show ?thesis by simp
qed

lemma clear_wellformed:
  assumes "distinct (kids d (parentElement b))" and "bounds_nodes d b = Some ns"
  shows "\<exists>pre post. kids d (parentElement b) = pre @ ns @ post
      \<and> clear d b = Inr (without d (parentElement b) ns (pre @ post),
                         if ns = [] then None else first_of post)
      \<and> (case lastNode b of None \<Rightarrow> None | Some l \<Rightarrow> nextSibling d l)
           = (if ns = [] then None else first_of post)
      \<and> firstNode b = first_of ns \<and> lastNode b = last_of ns
      \<and> (\<forall>n\<in>set ns. parentNode d n = Some (parentElement b))"
proof -
  from bounds_nodes_decomp[OF assms] obtain pre post where
    k: "kids d (parentElement b) = pre @ ns @ post" and f: "firstNode b = first_of ns"
    and l: "lastNode b = last_of ns" and pa: "\<forall>n\<in>set ns. parentNode d n = Some (parentElement b)"
    by blast
  have c: "clear d b = Inr (without d (parentElement b) ns (pre @ post), if ns = [] then None else first_of post)"
    using clear_loop_range[OF k assms(1) pa] by (simp add: clear_def f l)
  have "(case lastNode b of None \<Rightarrow> None | Some l \<Rightarrow> nextSibling d l)
      = (if ns = [] then None else first_of post)"
  proof (cases "ns = []")
    case True
    with l show ?thesis by (simp add: last_of_def)
  next
    case False
    with pa have "parentNode d (last ns) = Some (parentElement b)" by simp
    from next_after_range[OF k assms(1) False this] False l
    show ?thesis by (simp add: last_of_def)
  qed
  with k c f l pa show ?thesis by blast
qed

lemma insertBefore_new:
  assumes "parentNode d c = None"
    and "r = None \<or> (\<exists>h. r = Some h \<and> is_child d p h \<and> h \<noteq> c)"
  shows "insertBefore d p c r =
     Inr (d\<lparr>kids := (kids d)(p := place c r (kids d p)), parentNode := (parentNode d)(c \<mapsto> p)\<rparr>)"
  using assms by (auto simp: insertBefore_def detach_def)

lemma place_first_of:
  "distinct (pre @ post) \<Longrightarrow> place c (first_of post) (pre @ post) = pre @ c # post"
proof (cases post)
  case Nil
  then show ?thesis by simp
next
  case (Cons h t)
  assume "distinct (pre @ post)"
  with Cons have "h \<notin> set pre" by auto
  then have "takeWhile (\<lambda>x. x \<noteq> h) (pre @ h # t) = pre" "dropWhile (\<lambda>x. x \<noteq> h) (pre @ h # t) = h # t"
    by (induction pre) auto
  with Cons show ?thesis by simp
qed

text \<open>
  C8: for a well-formed bounds over the nodes \<open>ns\<close>, in a parent whose child list is that
  of a document, \<open>clearWithComment\<close> returns normally; the nodes \<open>ns\<close> have left the
  parent; one new node, the comment, stands in the child list before what was
  \<open>lastNode().nextSibling\<close> (at the end for null), which for a bounds with nodes is the
  place the nodes had; and the bounds returned has the comment as first and last node
  and the parent of the bounds given.
\<close>

theorem clearWithComment_replaces:
  assumes "siblings_ok d (parentElement b)" and "bounds_nodes d b = Some ns"
    and "parentNode d (fresh d) = None"
  shows "\<exists>d'. clearWithComment d b =
            Inr (d', \<lparr>parentElement = parentElement b, firstNode = Some (fresh d),
                      lastNode = Some (fresh d)\<rparr>)
      \<and> kids d' (parentElement b) =
          place (fresh d) (case lastNode b of None \<Rightarrow> None | Some l \<Rightarrow> nextSibling d l)
            (filter (\<lambda>n. n \<notin> set ns) (kids d (parentElement b)))
      \<and> (ns \<noteq> [] \<longrightarrow> (\<exists>pre post. kids d (parentElement b) = pre @ ns @ post
              \<and> kids d' (parentElement b) = pre @ fresh d # post))
      \<and> parentNode d' (fresh d) = Some (parentElement b)
      \<and> (\<forall>n\<in>set ns. parentNode d' n = None)
      \<and> fresh d' = Suc (fresh d)"
proof -
  let ?p = "parentElement b" and ?c = "fresh d"
  from assms(1) have di: "distinct (kids d ?p)" by (simp add: siblings_ok_def)
  from clear_wellformed[OF di assms(2)] obtain pre post where
    k: "kids d ?p = pre @ ns @ post"
    and c: "clear d b = Inr (without d ?p ns (pre @ post), if ns = [] then None else first_of post)"
    and nx: "(case lastNode b of None \<Rightarrow> None | Some l \<Rightarrow> nextSibling d l)
           = (if ns = [] then None else first_of post)"
    and pa: "\<forall>n\<in>set ns. parentNode d n = Some ?p"
    by blast
  let ?nxt = "if ns = [] then None else first_of post"
  let ?d2 = "(without d ?p ns (pre @ post))\<lparr>fresh := Suc ?c\<rparr>"
  let ?d3 = "?d2\<lparr>kids := (kids ?d2)(?p := place ?c ?nxt (kids ?d2 ?p)),
                  parentNode := (parentNode ?d2)(?c \<mapsto> ?p)\<rparr>"
  have cn: "parentNode ?d2 ?c = None"
    using assms(3) by (simp add: without_def)
  have rf: "?nxt = None \<or> (\<exists>h. ?nxt = Some h \<and> is_child ?d2 ?p h \<and> h \<noteq> ?c)"
  proof (cases "?nxt")
    case None
    then show ?thesis by simp
  next
    case (Some h)
    then have hp: "h \<in> set post" by (cases post) (auto split: if_splits)
    with di k have "h \<notin> set ns" by auto
    moreover from hp k assms(1) have "parentNode d h = Some ?p" by (simp add: siblings_ok_def)
    ultimately have "is_child ?d2 ?p h" using hp by (simp add: is_child_def without_def)
    moreover from \<open>parentNode d h = Some ?p\<close> assms(3) have "h \<noteq> ?c" by auto
    ultimately show ?thesis using Some by simp
  qed
  have ib: "insertBefore ?d2 ?p ?c ?nxt = Inr ?d3"
    by (rule insertBefore_new[OF cn rf])
  have cw: "clearWithComment d b =
      Inr (?d3, \<lparr>parentElement = ?p, firstNode = Some ?c, lastNode = Some ?c\<rparr>)"
    using c ib by (simp add: clearWithComment_def createComment_def createNode_def
        without_def ConcreteBounds_def)
  have k3: "kids ?d3 ?p = place ?c ?nxt (pre @ post)" by (simp add: without_def)
  have fl: "filter (\<lambda>n. n \<notin> set ns) (kids d ?p) = pre @ post"
    using di unfolding k by (rule filter_out_range)
  have a1: "kids ?d3 ?p = place ?c (case lastNode b of None \<Rightarrow> None | Some l \<Rightarrow> nextSibling d l)
            (filter (\<lambda>n. n \<notin> set ns) (kids d ?p))"
    by (simp only: k3 nx fl)
  have a2: "ns \<noteq> [] \<longrightarrow> (\<exists>pre post. kids d ?p = pre @ ns @ post \<and> kids ?d3 ?p = pre @ ?c # post)"
  proof
    assume ne: "ns \<noteq> []"
    from di k have "distinct (pre @ post)" by auto
    then have "place ?c (first_of post) (pre @ post) = pre @ ?c # post" by (rule place_first_of)
    with ne k3 have "kids ?d3 ?p = pre @ ?c # post" by simp
    with k show "\<exists>pre post. kids d ?p = pre @ ns @ post \<and> kids ?d3 ?p = pre @ ?c # post" by blast
  qed
  have a3: "parentNode ?d3 ?c = Some ?p" by simp
  have a4: "\<forall>n\<in>set ns. parentNode ?d3 n = None"
    using pa assms(3) by (auto simp: without_def)
  have a5: "fresh ?d3 = Suc ?c" by (simp add: without_def)
  from cw a1 a2 a3 a4 a5 show ?thesis by blast
qed

theorem clearWithComment_replaces_witness:
  "siblings_ok doc4 10 \<and> bounds_nodes doc4 (ConcreteBounds 10 (Some 12) (Some 13)) = Some [12, 13]
   \<and> parentNode doc4 (fresh doc4) = None
   \<and> (\<exists>d'. clearWithComment doc4 (ConcreteBounds 10 (Some 12) (Some 13)) =
            Inr (d', \<lparr>parentElement = 10, firstNode = Some 15, lastNode = Some 15\<rparr>)
        \<and> kids d' 10 = [11, 15, 14])"
proof -
  have h1: "siblings_ok doc4 (parentElement (ConcreteBounds 10 (Some 12) (Some 13)))"
    by (simp add: siblings_ok_def doc4_def ConcreteBounds_def)
  have h2: "bounds_nodes doc4 (ConcreteBounds 10 (Some 12) (Some 13)) = Some [12, 13]"
    by (simp add: bounds_nodes_def doc4_def ConcreteBounds_def is_child_def nextSibling_def)
  have h3: "parentNode doc4 (fresh doc4) = None" by (simp add: doc4_def)
  have nx: "nextSibling doc4 13 = Some 14" by (simp add: nextSibling_def doc4_def)
  have f: "fresh doc4 = 15" and k: "kids doc4 10 = [11, 12, 13, 14]" by (simp_all add: doc4_def)
  from clearWithComment_replaces[OF h1 h2 h3] obtain d' where
    "clearWithComment doc4 (ConcreteBounds 10 (Some 12) (Some 13)) =
       Inr (d', \<lparr>parentElement = 10, firstNode = Some 15, lastNode = Some 15\<rparr>)"
    "kids d' 10 = [11, 15, 14]"
    by (auto simp: ConcreteBounds_def f k nx)
  with h1 h2 h3 show ?thesis by (auto simp: ConcreteBounds_def)
qed

section \<open>insertBoundsBefore\<close>

text \<open>
  C3 fails on the code for a bounds of two nodes: the loop reads \<open>current.nextSibling\<close>
  after \<open>current\<close> has been moved, so it goes on from the new place. With a null
  reference, the bounds \<open>11, 12\<close> of the parent \<open>11, 12, 13, 14\<close>: only \<open>11\<close> is moved to
  the end and the loop stops there, leaving \<open>12, 13, 14, 11\<close>. With the reference at
  \<open>14\<close>, the bounds \<open>12, 13\<close>: only \<open>12\<close> is moved, leaving \<open>11, 13, 12, 14\<close>, so
  \<open>13\<close> is not before the reference next to \<open>12\<close> and the order of the two is lost.
\<close>

theorem insertBoundsBefore_moves_first_only:
  "bounds_nodes doc4 (ConcreteBounds 10 (Some 11) (Some 12)) = Some [11, 12]
   \<and> insertBoundsBefore doc4 10 (ConcreteBounds 10 (Some 11) (Some 12)) None
       = Some (Inr doc4_moved_end)
   \<and> kids doc4_moved_end 10 = [12, 13, 14, 11]
   \<and> bounds_nodes doc4 (ConcreteBounds 10 (Some 12) (Some 13)) = Some [12, 13]
   \<and> insertBoundsBefore doc4 10 (ConcreteBounds 10 (Some 12) (Some 13))
         (Some (SingleNodeBounds 10 (Some 14)))
       = Some (Inr doc4_moved_before)
   \<and> kids doc4_moved_before 10 = [11, 13, 12, 14]"
proof -
  have b1: "bounds_nodes doc4 (ConcreteBounds 10 (Some 11) (Some 12)) = Some [11, 12]"
    by (simp add: bounds_nodes_def doc4_def ConcreteBounds_def is_child_def nextSibling_def)
  have i1: "insertBefore doc4 10 11 None = Inr doc4_moved_end"
    by (simp add: insertBefore_def detach_def doc4_def doc4_moved_end_def fun_eq_iff)
  have n1: "nextSibling doc4_moved_end 11 = None"
    by (simp add: nextSibling_def doc4_moved_end_def)
  have l1: "insertBoundsBefore_loop doc4 10 (Some 12) None (Some 11) = Some (Inr doc4_moved_end)"
    by (simp add: insertBoundsBefore_loop.simps[of doc4] insertBoundsBefore_loop.simps[of doc4_moved_end] i1 n1)
  have b2: "bounds_nodes doc4 (ConcreteBounds 10 (Some 12) (Some 13)) = Some [12, 13]"
    by (simp add: bounds_nodes_def doc4_def ConcreteBounds_def is_child_def nextSibling_def)
  have i2: "insertBefore doc4 10 12 (Some 14) = Inr doc4_moved_before"
    by (simp add: insertBefore_def detach_def doc4_def doc4_moved_before_def fun_eq_iff is_child_def)
  have n2: "nextSibling doc4_moved_before 12 = Some 14"
    by (simp add: nextSibling_def doc4_moved_before_def)
  have i3: "insertBefore doc4_moved_before 10 14 (Some 14) = Inr doc4_moved_before"
    by (simp add: insertBefore_def detach_def doc4_moved_before_def fun_eq_iff is_child_def nextSibling_def)
  have n3: "nextSibling doc4_moved_before 14 = None"
    by (simp add: nextSibling_def doc4_moved_before_def)
  have l2: "insertBoundsBefore_loop doc4 10 (Some 13) (Some 14) (Some 12) = Some (Inr doc4_moved_before)"
    by (simp add: insertBoundsBefore_loop.simps[of doc4] insertBoundsBefore_loop.simps[of doc4_moved_before] i2 n2 i3 n3)
  show ?thesis
    using b1 l1 b2 l2
    by (simp add: insertBoundsBefore_def ConcreteBounds_def SingleNodeBounds_def doc4_moved_end_def doc4_moved_before_def)
qed

text \<open>
  A bounds of one node is moved as a whole: the loop is one \<open>insertBefore\<close>.
\<close>

lemma insertBoundsBefore_single:
  "insertBoundsBefore d p \<lparr>parentElement = q, firstNode = Some n, lastNode = Some n\<rparr> r =
     Some (insertBefore d p n (case r of Some x \<Rightarrow> firstNode x | None \<Rightarrow> None))"
  by (simp add: insertBoundsBefore_def Let_def insertBoundsBefore_loop.simps[of d] split: sum.splits)

section \<open>The state machine of EmptyableMorph\<close>

text \<open>
  C10: in the state \<open>Appending\<close>, \<open>firstNode()\<close> and \<open>lastNode()\<close> are null and
  \<open>nextSibling()\<close> fails with the \<open>TypeError\<close> of reading \<open>nextSibling\<close> of null; so when
  \<open>nextSibling()\<close> returns, the morph has left \<open>Appending\<close>. The same for a
  \<open>TemplateMorph\<close> in \<open>Appending\<close> that has no \<open>lastResult\<close> yet.
\<close>

theorem nextSibling_in_Appending:
  "(currentOperations m = Appending \<longrightarrow>
      EmptyableMorph_firstNode w m = None \<and> EmptyableMorph_lastNode w m = None
      \<and> EmptyableMorph_nextSibling w m = Inl TypeError)
   \<and> (\<forall>r. EmptyableMorph_nextSibling w m = Inr r \<longrightarrow> currentOperations m \<noteq> Appending)
   \<and> (currentOperations tm = Appending \<and> lastResult tm = None \<longrightarrow>
      TemplateMorph_firstNode w tm = None \<and> TemplateMorph_lastNode w tm = None
      \<and> TemplateMorph_nextSibling w tm = Inl TypeError)"
  by (auto simp: EmptyableMorph_firstNode_def EmptyableMorph_lastNode_def
      EmptyableMorph_nextSibling_def TemplateMorph_firstNode_def TemplateMorph_lastNode_def
      TemplateMorph_nextSibling_def)

theorem nextSibling_in_Appending_witness:
  "currentOperations (new_EmptyableMorph 10) = Appending
   \<and> EmptyableMorph_firstNode world4 (new_EmptyableMorph 10) = None
   \<and> EmptyableMorph_lastNode world4 (new_EmptyableMorph 10) = None
   \<and> EmptyableMorph_nextSibling world4 (new_EmptyableMorph 10) = Inl TypeError
   \<and> EmptyableMorph_nextSibling world4 ((new_EmptyableMorph 10)\<lparr>currentOperations := Empty 12\<rparr>) = Inr (Some 13)
   \<and> currentOperations (new_TemplateMorph 10) = Appending \<and> lastResult (new_TemplateMorph 10) = None
   \<and> TemplateMorph_nextSibling world4 (new_TemplateMorph 10) = Inl TypeError"
proof -
  have a: "currentOperations (new_EmptyableMorph 10) = Appending"
    by (simp add: new_EmptyableMorph_def)
  have t: "currentOperations (new_TemplateMorph 10) = Appending \<and> lastResult (new_TemplateMorph 10) = None"
    by (simp add: new_TemplateMorph_def)
  have e: "EmptyableMorph_nextSibling world4 ((new_EmptyableMorph 10)\<lparr>currentOperations := Empty 12\<rparr>) = Inr (Some 13)"
    by (simp add: EmptyableMorph_nextSibling_def EmptyableMorph_lastNode_def world4_def doc4_def
        nextSibling_def)
  from nextSibling_in_Appending[of "new_EmptyableMorph 10" world4 "new_TemplateMorph 10"]
    nextSibling_in_Appending[of "(new_EmptyableMorph 10)\<lparr>currentOperations := Empty 12\<rparr>" world4 "new_TemplateMorph 10"]
    a t e
  show ?thesis by simp
qed
lemma clear_loop_only_removes:
  "clear_loop d p l n = Inr (d', r) \<Longrightarrow>
   fresh d' = fresh d \<and> set (kids d' q) \<subseteq> set (kids d q)
   \<and> (parentNode d' x = None \<or> parentNode d' x = parentNode d x)"
proof (induction d p l n arbitrary: d' r rule: clear_loop.induct)
  case (1 d parent lastN)
  then show ?case by simp
next
  case (2 d parent lastN node)
  from "2.prems" obtain d1 where rm: "removeChild d parent node = Inr d1"
    by (cases "removeChild d parent node") auto
  then have d1: "fresh d1 = fresh d" "set (kids d1 q) \<subseteq> set (kids d q)"
    "parentNode d1 x = None \<or> parentNode d1 x = parentNode d x"
    by (auto simp: removeChild_def split: if_splits)
  show ?case
  proof (cases "lastN = Some node")
    case True
    with "2.prems" rm have "d' = d1" by simp
    with d1 show ?thesis by simp
  next
    case False
    then have ne: "Some node \<noteq> lastN" by auto
    with "2.prems" rm have "clear_loop d1 parent lastN (nextSibling d node) = Inr (d', r)" by simp
    from "2.IH"[OF refl rm ne this] d1 show ?thesis by auto
  qed
qed

lemma count_place: "count_list (place c r ks) c = Suc (count_list ks c)"
proof (cases r)
  case None
  then show ?thesis by simp
next
  case (Some h)
  have "count_list ks c = count_list (takeWhile (\<lambda>x. x \<noteq> h) ks @ dropWhile (\<lambda>x. x \<noteq> h) ks) c"
    by simp
  also have "\<dots> = count_list (takeWhile (\<lambda>x. x \<noteq> h) ks) c + count_list (dropWhile (\<lambda>x. x \<noteq> h) ks) c"
    by (simp only: count_list_append)
  finally show ?thesis using Some by simp
qed

lemma new_Empty_result:
  assumes "new_Empty w p nxt = Inr (w', s)" and "parentNode (doc w) (fresh (doc w)) = None"
  shows "s = Empty (fresh (doc w)) \<and> fresh (doc w') = Suc (fresh (doc w))
     \<and> count_list (kids (doc w') p) (fresh (doc w)) = Suc (count_list (kids (doc w) p) (fresh (doc w)))"
  using assms
  by (auto simp: new_Empty_def createComment_def createNode_def insertBefore_def detach_def
      count_place simp del: place.simps split: if_splits sum.splits)

text \<open>
  C5: after a \<open>didBecomeEmpty\<close> that returned, the morph is in \<open>Empty\<close> and a second
  \<open>didBecomeEmpty\<close> changes neither the world nor the morph. When the morph was not in
  \<open>Empty\<close> before and the next new node is not in the document yet, the two calls
  together have created one node, the placeholder, and it is in the child list of the
  morph's parent exactly once.
\<close>

theorem didBecomeEmpty_twice:
  assumes "EmptyableMorph_didBecomeEmpty w m = Inr (w1, m1)"
  shows "EmptyableMorph_didBecomeEmpty w1 m1 = Inr (w1, m1)
     \<and> (\<exists>c. currentOperations m1 = Empty c)
     \<and> ((\<forall>c. currentOperations m \<noteq> Empty c) \<and> parentNode (doc w) (fresh (doc w)) = None
          \<and> fresh (doc w) \<notin> set (kids (doc w) (morph_parentNode m))
        \<longrightarrow> currentOperations m1 = Empty (fresh (doc w))
            \<and> fresh (doc w1) = Suc (fresh (doc w))
            \<and> count_list (kids (doc w1) (morph_parentNode m)) (fresh (doc w)) = 1)"
proof -
  let ?p = "morph_parentNode m" and ?c = "fresh (doc w)"
  from assms obtain s where
    s: "ops_didBecomeEmpty w ?p (currentOperations m) = Inr (w1, s)"
    and m1: "m1 = m\<lparr>currentOperations := s\<rparr>"
    by (auto simp: EmptyableMorph_didBecomeEmpty_def split: sum.splits)
  have em: "\<exists>c. s = Empty c"
  proof (cases "currentOperations m")
    case Appending
    with s show ?thesis
      by (auto simp: new_Empty_def createComment_def createNode_def split: sum.splits)
  next
    case (Empty c)
    from s[unfolded Empty] show ?thesis by auto
  next
    case (HasContent b)
    with s show ?thesis
      by (auto simp: new_Empty_def createComment_def createNode_def split: sum.splits)
  qed
  then have again: "EmptyableMorph_didBecomeEmpty w1 m1 = Inr (w1, m1)"
    using m1 by (auto simp: EmptyableMorph_didBecomeEmpty_def)
  have one: "currentOperations m1 = Empty ?c \<and> fresh (doc w1) = Suc ?c
      \<and> count_list (kids (doc w1) ?p) ?c = 1"
    if ne: "\<forall>c. currentOperations m \<noteq> Empty c" and fr: "parentNode (doc w) ?c = None"
      and nin: "?c \<notin> set (kids (doc w) ?p)"
  proof (cases "currentOperations m")
    case Appending
    with s have "new_Empty w ?p None = Inr (w1, s)" by simp
    from new_Empty_result[OF this fr] nin m1 show ?thesis by simp
  next
    case (Empty c)
    with ne show ?thesis by simp
  next
    case (HasContent b)
    with s obtain d' nxt where
      c: "clear (doc w) (the_bounds w b) = Inr (d', nxt)"
      and n: "new_Empty (w\<lparr>doc := d'\<rparr>) ?p nxt = Inr (w1, s)"
      by (auto split: sum.splits)
    from c have k: "fresh d' = ?c" "set (kids d' ?p) \<subseteq> set (kids (doc w) ?p)"
        "parentNode d' ?c = None \<or> parentNode d' ?c = parentNode (doc w) ?c"
      using clear_loop_only_removes[of "doc w" _ _ _ d' nxt ?p ?c] by (simp_all add: clear_def)
    with fr have fr': "parentNode (doc (w\<lparr>doc := d'\<rparr>)) (fresh (doc (w\<lparr>doc := d'\<rparr>))) = None"
      by auto
    from k nin have "count_list (kids d' ?p) ?c = 0" by (simp add: count_list_0_iff subset_iff) blast
    with new_Empty_result[OF n fr'] k m1 show ?thesis by simp
  qed
  from again em m1 one show ?thesis by auto
qed
theorem didBecomeEmpty_twice_witness:
  "EmptyableMorph_didBecomeEmpty world4 (new_EmptyableMorph 10)
     = Inr (world4\<lparr>doc := doc4_placeholder\<rparr>, (new_EmptyableMorph 10)\<lparr>currentOperations := Empty 15\<rparr>)
   \<and> EmptyableMorph_didBecomeEmpty (world4\<lparr>doc := doc4_placeholder\<rparr>)
        ((new_EmptyableMorph 10)\<lparr>currentOperations := Empty 15\<rparr>)
     = Inr (world4\<lparr>doc := doc4_placeholder\<rparr>, (new_EmptyableMorph 10)\<lparr>currentOperations := Empty 15\<rparr>)
   \<and> kids doc4_placeholder 10 = [11, 12, 13, 14, 15]
   \<and> count_list (kids doc4_placeholder 10) 15 = 1"
proof -
  have h: "EmptyableMorph_didBecomeEmpty world4 (new_EmptyableMorph 10)
     = Inr (world4\<lparr>doc := doc4_placeholder\<rparr>, (new_EmptyableMorph 10)\<lparr>currentOperations := Empty 15\<rparr>)"
    by (simp add: EmptyableMorph_didBecomeEmpty_def new_EmptyableMorph_def new_Empty_def
        createComment_def createNode_def insertBefore_def detach_def world4_def doc4_def
        doc4_placeholder_def fun_eq_iff)
  from didBecomeEmpty_twice[OF h] h show ?thesis
    by (simp add: doc4_placeholder_def)
qed

lemma in_place: "c \<in> set (place c r ks)"
  by (cases r) auto

lemma removeAll_place: "c \<notin> set ks \<Longrightarrow> removeAll c (place c r ks) = ks"
proof (cases r)
  case None
  assume "c \<notin> set ks"
  with None show ?thesis by simp
next
  case (Some h)
  assume c: "c \<notin> set ks"
  then have "c \<notin> set (takeWhile (\<lambda>x. x \<noteq> h) ks)" "c \<notin> set (dropWhile (\<lambda>x. x \<noteq> h) ks)"
    by (auto dest: set_takeWhileD set_dropWhileD)
  then have "removeAll c (takeWhile (\<lambda>x. x \<noteq> h) ks @ c # dropWhile (\<lambda>x. x \<noteq> h) ks)
      = takeWhile (\<lambda>x. x \<noteq> h) ks @ dropWhile (\<lambda>x. x \<noteq> h) ks"
    by (simp add: removeAll_id)
  with Some show ?thesis by simp
qed

lemma insert_comment_after_clear:
  assumes so: "siblings_ok d p" and k: "kids d p = pre @ ns @ post"
    and fr: "parentNode d (fresh d) = None"
    and d2: "d2 = (without d p ns (pre @ post))\<lparr>fresh := Suc (fresh d)\<rparr>"
    and nxt: "nxt = (if ns = [] then None else first_of post)"
  shows "insertBefore d2 p (fresh d) nxt =
     Inr (d2\<lparr>kids := (kids d2)(p := place (fresh d) nxt (pre @ post)),
             parentNode := (parentNode d2)(fresh d \<mapsto> p)\<rparr>)"
proof -
  let ?c = "fresh d"
  from so have di: "distinct (kids d p)" by (simp add: siblings_ok_def)
  have cn: "parentNode d2 ?c = None"
    using fr by (simp add: d2 without_def)
  have rf: "nxt = None \<or> (\<exists>h. nxt = Some h \<and> is_child d2 p h \<and> h \<noteq> ?c)"
  proof (cases nxt)
    case None
    then show ?thesis by simp
  next
    case (Some h)
    then have hp: "h \<in> set post" unfolding nxt by (cases post) (auto split: if_splits)
    with di k have "h \<notin> set ns" by auto
    moreover from hp k so have ph: "parentNode d h = Some p" by (simp add: siblings_ok_def)
    ultimately have "is_child d2 p h" using hp by (simp add: is_child_def without_def d2)
    moreover from ph fr have "h \<noteq> ?c" by auto
    ultimately show ?thesis using Some by simp
  qed
  have "kids d2 p = pre @ post" by (simp add: d2 without_def)
  with insertBefore_new[OF cn rf] show ?thesis by simp
qed

text \<open>
  C4: a morph in \<open>Appending\<close>, a well-formed bounds \<open>b1\<close> over the nodes \<open>ns\<close> under the
  morph's parent, whose child list is that of a document, and any bounds \<open>b2\<close>. Then
  \<open>didInsertContent(b1)\<close>, \<open>didBecomeEmpty()\<close>, \<open>didInsertContent(b2)\<close> all return, the
  states are \<open>HasContent b1\<close>, \<open>Empty\<close> with the new comment, \<open>HasContent b2\<close>, and at
  the end the parent has its old children without \<open>ns\<close>: the comment is not among them
  and has no parent, and no node of \<open>b1\<close> is among them.
\<close>

theorem insert_empty_insert:
  assumes ap: "currentOperations m = Appending"
    and pe: "parentElement (the_bounds w b1) = morph_parentNode m"
    and so: "siblings_ok (doc w) (morph_parentNode m)"
    and bn: "bounds_nodes (doc w) (the_bounds w b1) = Some ns"
    and fr: "parentNode (doc w) (fresh (doc w)) = None"
  shows "\<exists>w2 w3.
       EmptyableMorph_didInsertContent w m b1 = Inr (w, m\<lparr>currentOperations := HasContent b1\<rparr>)
     \<and> EmptyableMorph_didBecomeEmpty w (m\<lparr>currentOperations := HasContent b1\<rparr>)
          = Inr (w2, m\<lparr>currentOperations := Empty (fresh (doc w))\<rparr>)
     \<and> EmptyableMorph_didInsertContent w2 (m\<lparr>currentOperations := Empty (fresh (doc w))\<rparr>) b2
          = Inr (w3, m\<lparr>currentOperations := HasContent b2\<rparr>)
     \<and> kids (doc w3) (morph_parentNode m)
          = filter (\<lambda>n. n \<notin> set ns) (kids (doc w) (morph_parentNode m))
     \<and> fresh (doc w) \<notin> set (kids (doc w3) (morph_parentNode m))
     \<and> parentNode (doc w3) (fresh (doc w)) = None
     \<and> (\<forall>n\<in>set ns. n \<notin> set (kids (doc w3) (morph_parentNode m)) \<and> parentNode (doc w3) n = None)"
proof -
  let ?p = "morph_parentNode m" and ?c = "fresh (doc w)" and ?d = "doc w"
  from so have di: "distinct (kids ?d (parentElement (the_bounds w b1)))"
    by (simp add: siblings_ok_def pe)
  from clear_wellformed[OF di bn] obtain pre post where
    k: "kids ?d ?p = pre @ ns @ post"
    and c: "clear ?d (the_bounds w b1) = Inr (without ?d ?p ns (pre @ post), if ns = [] then None else first_of post)"
    and pa: "\<forall>n\<in>set ns. parentNode ?d n = Some ?p"
    unfolding pe by blast
  let ?nxt = "if ns = [] then None else first_of post"
  let ?d2 = "(without ?d ?p ns (pre @ post))\<lparr>fresh := Suc ?c\<rparr>"
  let ?d3 = "?d2\<lparr>kids := (kids ?d2)(?p := place ?c ?nxt (pre @ post)),
                  parentNode := (parentNode ?d2)(?c \<mapsto> ?p)\<rparr>"
  let ?d4 = "?d3\<lparr>kids := (kids ?d3)(?p := removeAll ?c (kids ?d3 ?p)),
                  parentNode := (parentNode ?d3)(?c := None)\<rparr>"
  have s1: "EmptyableMorph_didInsertContent w m b1 = Inr (w, m\<lparr>currentOperations := HasContent b1\<rparr>)"
    by (simp add: EmptyableMorph_didInsertContent_def ap)
  have ib: "insertBefore ?d2 ?p ?c ?nxt = Inr ?d3"
    by (rule insert_comment_after_clear[OF so k fr refl refl])
  have s2: "EmptyableMorph_didBecomeEmpty w (m\<lparr>currentOperations := HasContent b1\<rparr>)
      = Inr (w\<lparr>doc := ?d3\<rparr>, m\<lparr>currentOperations := Empty ?c\<rparr>)"
    using c ib by (simp add: EmptyableMorph_didBecomeEmpty_def new_Empty_def createComment_def
        createNode_def without_def)
  have rc: "removeChild ?d3 ?p ?c = Inr ?d4"
    by (simp add: removeChild_def is_child_def in_place del: place.simps)
  have s3: "EmptyableMorph_didInsertContent (w\<lparr>doc := ?d3\<rparr>) (m\<lparr>currentOperations := Empty ?c\<rparr>) b2
      = Inr (w\<lparr>doc := ?d4\<rparr>, m\<lparr>currentOperations := HasContent b2\<rparr>)"
    using rc by (simp add: EmptyableMorph_didInsertContent_def del: place.simps)
  have cnin: "?c \<notin> set (kids ?d ?p)"
    using so fr by (auto simp: siblings_ok_def)
  with k have "?c \<notin> set (pre @ post)" by auto
  then have k4: "kids ?d4 ?p = pre @ post"
    by (simp add: removeAll_place del: place.simps)
  from so k have "filter (\<lambda>n. n \<notin> set ns) (kids ?d ?p) = pre @ post"
    unfolding siblings_ok_def by (metis filter_out_range)
  with k4 have a1: "kids (doc (w\<lparr>doc := ?d4\<rparr>)) ?p = filter (\<lambda>n. n \<notin> set ns) (kids ?d ?p)" by simp
  have a2: "?c \<notin> set (kids (doc (w\<lparr>doc := ?d4\<rparr>)) ?p)"
    using k4 \<open>?c \<notin> set (pre @ post)\<close> by simp
  have a3: "parentNode (doc (w\<lparr>doc := ?d4\<rparr>)) ?c = None" by simp
  have a4: "\<forall>n\<in>set ns. n \<notin> set (kids (doc (w\<lparr>doc := ?d4\<rparr>)) ?p) \<and> parentNode (doc (w\<lparr>doc := ?d4\<rparr>)) n = None"
  proof
    fix n assume n: "n \<in> set ns"
    with so k have "n \<notin> set (pre @ post)" by (auto simp: siblings_ok_def)
    moreover from n have "parentNode ?d4 n = None" by (simp add: without_def)
    ultimately show "n \<notin> set (kids (doc (w\<lparr>doc := ?d4\<rparr>)) ?p) \<and> parentNode (doc (w\<lparr>doc := ?d4\<rparr>)) n = None"
      using k4 by simp
  qed
  from s1 s2 s3 a1 a2 a3 a4 show ?thesis by blast
qed
theorem insert_empty_insert_witness:
  "currentOperations (new_EmptyableMorph 10) = Appending
   \<and> siblings_ok (doc world4) 10
   \<and> bounds_nodes (doc world4) (ConcreteBounds 10 (Some 12) (Some 13)) = Some [12, 13]
   \<and> parentNode (doc world4) 15 = None
   \<and> (\<exists>w2 w3.
        EmptyableMorph_didBecomeEmpty world4
            ((new_EmptyableMorph 10)\<lparr>currentOperations := HasContent (Plain (ConcreteBounds 10 (Some 12) (Some 13)))\<rparr>)
          = Inr (w2, (new_EmptyableMorph 10)\<lparr>currentOperations := Empty 15\<rparr>)
      \<and> EmptyableMorph_didInsertContent w2 ((new_EmptyableMorph 10)\<lparr>currentOperations := Empty 15\<rparr>)
            (Plain (SingleNodeBounds 10 (Some 14)))
          = Inr (w3, (new_EmptyableMorph 10)\<lparr>currentOperations := HasContent (Plain (SingleNodeBounds 10 (Some 14)))\<rparr>)
      \<and> kids (doc w3) 10 = [11, 14] \<and> parentNode (doc w3) 15 = None
      \<and> parentNode (doc w3) 12 = None \<and> parentNode (doc w3) 13 = None)"
proof -
  let ?m = "new_EmptyableMorph 10" and ?b1 = "Plain (ConcreteBounds 10 (Some 12) (Some 13))"
  have p: "morph_parentNode ?m = 10" and f: "fresh (doc world4) = 15"
    and k: "kids (doc world4) 10 = [11, 12, 13, 14]"
    by (simp_all add: new_EmptyableMorph_def world4_def doc4_def)
  have h1: "currentOperations ?m = Appending" by (simp add: new_EmptyableMorph_def)
  have h2: "parentElement (the_bounds world4 ?b1) = morph_parentNode ?m"
    by (simp add: new_EmptyableMorph_def ConcreteBounds_def)
  have h3: "siblings_ok (doc world4) (morph_parentNode ?m)"
    by (simp add: siblings_ok_def world4_def doc4_def new_EmptyableMorph_def)
  have h4: "bounds_nodes (doc world4) (the_bounds world4 ?b1) = Some [12, 13]"
    by (simp add: bounds_nodes_def world4_def doc4_def ConcreteBounds_def is_child_def nextSibling_def)
  have h5: "parentNode (doc world4) (fresh (doc world4)) = None"
    by (simp add: world4_def doc4_def)
  from insert_empty_insert[OF h1 h2 h3 h4 h5, of "Plain (SingleNodeBounds 10 (Some 14))"]
    h1 h3 h4 h5
  show ?thesis
    unfolding p f k by (simp, blast)
qed

section \<open>TemplateMorph: appending a template\<close>

lemma insert_new_run:
  "kids d p = A @ B \<Longrightarrow> siblings_ok d p \<Longrightarrow> unused d \<Longrightarrow> a = first_of B \<Longrightarrow>
   insert_new d p a k =
     Inr (with_new d p [fresh d..<fresh d + k] (A @ [fresh d..<fresh d + k] @ B),
          [fresh d..<fresh d + k])"
proof (induction k arbitrary: d A)
  case 0
  then have "(kids d)(p := A @ B) = kids d" by (auto simp: fun_eq_iff)
  then show ?case by (simp add: with_new_def)
next
  case (Suc k)
  let ?c = "fresh d"
  let ?d1 = "d\<lparr>fresh := Suc ?c\<rparr>"
  let ?d2 = "?d1\<lparr>kids := (kids ?d1)(p := A @ ?c # B), parentNode := (parentNode ?d1)(?c \<mapsto> p)\<rparr>"
  from Suc.prems have cn: "parentNode ?d1 ?c = None" by (simp add: unused_def)
  from Suc.prems have cnin: "?c \<notin> set (A @ B)"
    using cn by (auto simp: siblings_ok_def)
  have rf: "a = None \<or> (\<exists>h. a = Some h \<and> is_child ?d1 p h \<and> h \<noteq> ?c)"
  proof (cases a)
    case None
    then show ?thesis by simp
  next
    case (Some h)
    with Suc.prems(4) have "h \<in> set B" by (cases B) auto
    with Suc.prems(1,2) cnin have "is_child ?d1 p h" "h \<noteq> ?c"
      by (auto simp: is_child_def siblings_ok_def)
    with Some show ?thesis by simp
  qed
  from Suc.prems have "distinct (A @ B)" by (simp add: siblings_ok_def)
  then have pl: "place ?c a (A @ B) = A @ ?c # B"
    unfolding Suc.prems(4) by (rule place_first_of)
  have ib: "insertBefore ?d1 p ?c a = Inr ?d2"
    using insertBefore_new[OF cn rf] pl Suc.prems(1) by simp
  have k2: "kids ?d2 p = (A @ [?c]) @ B" by simp
  have so2: "siblings_ok ?d2 p"
    using Suc.prems(1,2) cnin by (auto simp: siblings_ok_def)
  have un2: "unused ?d2"
    using Suc.prems(3) by (simp add: unused_def)
  have ih: "insert_new ?d2 p a k =
     Inr (with_new ?d2 p [Suc ?c..<Suc ?c + k] ((A @ [?c]) @ [Suc ?c..<Suc ?c + k] @ B),
          [Suc ?c..<Suc ?c + k])"
    using Suc.IH[OF k2 so2 un2 Suc.prems(4)] by simp
  have up: "[?c..<?c + Suc k] = ?c # [Suc ?c..<Suc ?c + k]"
    by (simp add: upt_conv_Cons)
  have w: "with_new ?d2 p [Suc ?c..<Suc ?c + k] ((A @ [?c]) @ [Suc ?c..<Suc ?c + k] @ B)
      = with_new d p [?c..<?c + Suc k] (A @ [?c..<?c + Suc k] @ B)"
    unfolding up by (auto simp: with_new_def fun_eq_iff)
  show ?case
    using ib ih unfolding w up
    by (simp add: createNode_def)
qed
lemma occupies_anchor:
  assumes "occupies w m pre reg post"
  shows "EmptyableMorph_nextSiblingForContent w m = first_of (reg @ post)"
proof -
  from assms have "EmptyableMorph_nextSiblingForContent w m = first_of reg"
    by (cases "currentOperations m")
      (auto simp: occupies_def EmptyableMorph_nextSiblingForContent_def)
  moreover from assms have "first_of reg = first_of (reg @ post)"
    by (cases reg) (auto simp: occupies_def)
  ultimately show ?thesis by simp
qed

lemma occupies_old_nodes:
  assumes "occupies w m pre reg post" and "n \<in> set (pre @ reg @ post)"
  shows "parentNode (doc w) n = Some (morph_parentNode m) \<and> n < fresh (doc w)"
proof -
  from assms have p: "parentNode (doc w) n = Some (morph_parentNode m)"
    by (auto simp: occupies_def siblings_ok_def)
  moreover from assms(1) have "unused (doc w)" by (simp add: occupies_def)
  ultimately have "\<not> fresh (doc w) \<le> n" by (auto simp: unused_def)
  with p show ?thesis by simp
qed

lemma didInsertContent_after_evaluate:
  assumes oc: "occupies w m pre reg post"
    and new: "new = [fresh (doc w)..<fresh (doc w) + k]"
    and al: "al = allocated w"
    and wE: "wE = w\<lparr>doc := with_new (doc w) (morph_parentNode m) new (pre @ new @ reg @ post),
                    results := (results w)(al := r), allocated := Suc al, calls := cs\<rparr>"
  shows "EmptyableMorph_didInsertContent wE (m\<lparr>lastResult := Some al\<rparr>) (Result al) =
     Inr (wE\<lparr>doc := swapped (doc w) (morph_parentNode m) reg new (pre @ new @ post)\<rparr>,
          m\<lparr>lastResult := Some al, currentOperations := HasContent (Result al)\<rparr>)"
proof -
  let ?p = "morph_parentNode m" and ?d = "doc w"
  let ?dE = "with_new ?d ?p new (pre @ new @ reg @ post)"
  from oc have di: "distinct (pre @ reg @ post)" by (auto simp: occupies_def siblings_ok_def)
  have nn: "n \<notin> set new" if "n \<in> set (pre @ reg @ post)" for n
  proof -
    from occupies_old_nodes[OF oc that] have "n < fresh (doc w)" by simp
    then show ?thesis unfolding new by simp
  qed
  show ?thesis
  proof (cases "currentOperations m")
    case Appending
    with oc have "reg = []" "post = []" by (auto simp: occupies_def)
    then have "?dE = swapped ?d ?p reg new (pre @ new @ post)"
      by (simp add: with_new_def swapped_def cong: if_cong)
    with Appending show ?thesis
      by (simp add: EmptyableMorph_didInsertContent_def wE)
  next
    case (Empty c)
    with oc have reg: "reg = [c]" by (simp add: occupies_def)
    from occupies_old_nodes[OF oc, of c] nn[of c] reg
    have pc: "parentNode ?dE c = Some ?p" by (simp add: with_new_def)
    have cin: "c \<in> set (kids ?dE ?p)" by (simp add: with_new_def reg)
    from di nn reg have "c \<notin> set pre" "c \<notin> set new" "c \<notin> set post" by auto
    then have ra: "removeAll c (pre @ new @ reg @ post) = pre @ new @ post"
      by (simp add: reg)
    have "?dE\<lparr>kids := (kids ?dE)(?p := removeAll c (kids ?dE ?p)),
               parentNode := (parentNode ?dE)(c := None)\<rparr>
        = swapped ?d ?p reg new (pre @ new @ post)"
      using ra \<open>c \<notin> set new\<close>
      by (intro dom.equality) (auto simp: with_new_def swapped_def reg fun_eq_iff)
    then have "removeChild ?dE ?p c = Inr (swapped ?d ?p reg new (pre @ new @ post))"
      using pc cin by (simp add: removeChild_def is_child_def)
    with Empty pc show ?thesis
      by (simp add: EmptyableMorph_didInsertContent_def wE)
  next
    case (HasContent b)
    with oc have tb: "the_bounds w b = \<lparr>parentElement = ?p, firstNode = first_of reg,
          lastNode = last_of reg\<rparr>"
      and ad: "case b of Plain x \<Rightarrow> True | Result a \<Rightarrow> a < allocated w"
      by (auto simp: occupies_def)
    from ad have "the_bounds wE b = the_bounds w b"
      by (cases b) (auto simp: wE al)
    with tb have tbE: "the_bounds wE b = \<lparr>parentElement = ?p, firstNode = first_of reg,
          lastNode = last_of reg\<rparr>" by simp
    have kE: "kids ?dE ?p = (pre @ new) @ reg @ post" by (simp add: with_new_def)
    have dE: "distinct (kids ?dE ?p)"
      using di nn by (auto simp: with_new_def new)
    have pE: "\<forall>n\<in>set reg. parentNode ?dE n = Some ?p"
      using occupies_old_nodes[OF oc] by (auto simp: with_new_def)
    have "clear_loop ?dE ?p (last_of reg) (first_of reg) =
        Inr (without ?dE ?p reg ((pre @ new) @ post), if reg = [] then None else first_of post)"
      by (rule clear_loop_range[OF kE dE pE])
    moreover have "without ?dE ?p reg ((pre @ new) @ post) = swapped ?d ?p reg new (pre @ new @ post)"
      using nn by (intro dom.equality) (auto simp: without_def with_new_def swapped_def fun_eq_iff)
    moreover have "doc wE = ?dE" by (simp add: wE)
    ultimately have "clear (doc wE) (the_bounds wE b) =
        Inr (swapped ?d ?p reg new (pre @ new @ post), if reg = [] then None else first_of post)"
      by (simp add: clear_def tbE)
    with HasContent show ?thesis
      by (simp add: EmptyableMorph_didInsertContent_def)
  qed
qed
lemma appendTemplate_step:
  assumes oc: "occupies w m pre reg post"
  shows "appendTemplate w m t (EmptyableMorph_nextSiblingForContent w m) =
     Inr (after_append w (morph_parentNode m) t pre reg post,
          m\<lparr>lastResult := Some (allocated w),
            currentOperations := HasContent (Result (allocated w))\<rparr>)"
proof -
  let ?p = "morph_parentNode m" and ?d = "doc w" and ?al = "allocated w"
  let ?new = "[fresh ?d..<fresh ?d + width t]"
  let ?r = "\<lparr>template = t,
      extent = \<lparr>parentElement = ?p, firstNode = first_of ?new, lastNode = last_of ?new\<rparr>\<rparr>"
  let ?cs = "calls w @ [Evaluate t (first_of (reg @ post))]"
  let ?wE = "w\<lparr>doc := with_new ?d ?p ?new (pre @ ?new @ reg @ post),
       results := (results w)(?al := ?r), allocated := Suc ?al, calls := ?cs\<rparr>"
  have an: "EmptyableMorph_nextSiblingForContent w m = first_of (reg @ post)"
    by (rule occupies_anchor[OF oc])
  from oc have k: "kids ?d ?p = pre @ (reg @ post)" and so: "siblings_ok ?d ?p" and un: "unused ?d"
    by (simp_all add: occupies_def)
  have "insert_new ?d ?p (first_of (reg @ post)) (width t) =
      Inr (with_new ?d ?p ?new (pre @ ?new @ reg @ post), ?new)"
    using insert_new_run[OF k so un refl, of "width t"] by simp
  then have ev: "evaluate w t ?p (first_of (reg @ post)) = Inr (?wE, ?al)"
    by (simp add: evaluate_def Let_def)
  have di: "EmptyableMorph_didInsertContent ?wE (m\<lparr>lastResult := Some ?al\<rparr>) (Result ?al) =
     Inr (?wE\<lparr>doc := swapped ?d ?p reg ?new (pre @ ?new @ post)\<rparr>,
          m\<lparr>lastResult := Some ?al, currentOperations := HasContent (Result ?al)\<rparr>)"
    by (rule didInsertContent_after_evaluate[OF oc refl refl refl])
  have "?wE\<lparr>doc := swapped ?d ?p reg ?new (pre @ ?new @ post)\<rparr> = after_append w ?p t pre reg post"
    by (simp add: after_append_def Let_def)
  with ev di show ?thesis
    by (simp add: appendTemplate_def an)
qed

lemma occupies_after_append:
  assumes oc: "occupies w m pre reg post"
    and new: "new = [fresh (doc w)..<fresh (doc w) + width t]"
    and m': "m' = m\<lparr>lastResult := Some (allocated w),
            currentOperations := HasContent (Result (allocated w))\<rparr>"
  shows "occupies (after_append w (morph_parentNode m) t pre reg post) m'
           (if new = [] then pre @ post else pre) new (if new = [] then [] else post)"
proof -
  let ?p = "morph_parentNode m" and ?d = "doc w"
  let ?w' = "after_append w ?p t pre reg post"
  have d': "doc ?w' = swapped ?d ?p reg new (pre @ new @ post)"
    by (simp add: after_append_def Let_def new)
  from oc have di: "distinct (pre @ reg @ post)" and un: "unused ?d"
    by (auto simp: occupies_def siblings_ok_def)
  have nn: "n \<notin> set new" if "n \<in> set (pre @ reg @ post)" for n
  proof -
    from occupies_old_nodes[OF oc that] have "n < fresh (doc w)" by simp
    then show ?thesis unfolding new by simp
  qed
  have k: "kids (doc ?w') ?p = pre @ new @ post" by (simp add: d' swapped_def)
  have dn: "distinct (pre @ new @ post)"
    using di nn by (auto simp: new)
  have pa: "\<forall>n\<in>set (pre @ new @ post). parentNode (doc ?w') n = Some ?p"
  proof
    fix n assume n: "n \<in> set (pre @ new @ post)"
    show "parentNode (doc ?w') n = Some ?p"
    proof (cases "n \<in> set new")
      case True
      then show ?thesis by (simp add: d' swapped_def)
    next
      case False
      with n have np: "n \<in> set (pre @ post)" by auto
      with di have "n \<notin> set reg" by auto
      moreover from np occupies_old_nodes[OF oc, of n] have "parentNode ?d n = Some ?p" by auto
      ultimately show ?thesis using False by (simp add: d' swapped_def)
    qed
  qed
  have so: "siblings_ok (doc ?w') ?p"
    using dn pa by (simp add: siblings_ok_def k)
  have un': "unused (doc ?w')"
    using un by (auto simp: unused_def d' swapped_def new)
  have ex: "the_bounds ?w' (Result (allocated w)) =
      \<lparr>parentElement = ?p, firstNode = first_of new, lastNode = last_of new\<rparr>"
    by (simp add: after_append_def Let_def new)
  have al: "allocated w < allocated ?w'" by (simp add: after_append_def Let_def)
  show ?thesis
    using k so un' ex al by (simp add: occupies_def m')
qed
lemma didInsertContent_frame:
  assumes "EmptyableMorph_didInsertContent w m b = Inr (w', m')"
  shows "m' = m\<lparr>currentOperations := HasContent b\<rparr> \<and> results w' = results w
     \<and> calls w' = calls w \<and> allocated w' = allocated w"
  using assms
  by (cases "currentOperations m")
    (auto simp: EmptyableMorph_didInsertContent_def split: sum.splits option.splits)

lemma appendTemplate_result:
  assumes "appendTemplate w m t nxt = Inr (w', m')"
  shows "m' = m\<lparr>lastResult := Some (allocated w),
               currentOperations := HasContent (Result (allocated w))\<rparr>
     \<and> template (results w' (allocated w)) = t
     \<and> calls w' = calls w @ [Evaluate t nxt] \<and> allocated w' = Suc (allocated w)"
proof -
  from assms obtain wE a where ev: "evaluate w t (morph_parentNode m) nxt = Inr (wE, a)"
    and di: "EmptyableMorph_didInsertContent wE (m\<lparr>lastResult := Some a\<rparr>) (Result a) = Inr (w', m')"
    by (auto simp: appendTemplate_def split: sum.splits)
  from ev have a: "a = allocated w" and r: "template (results wE a) = t"
    and c: "calls wE = calls w @ [Evaluate t nxt]" and al: "allocated wE = Suc (allocated w)"
    by (auto simp: evaluate_def Let_def split: sum.splits)
  from didInsertContent_frame[OF di] a r c al show ?thesis by simp
qed

lemma didBecomeEmpty_state:
  assumes "EmptyableMorph_didBecomeEmpty w m = Inr (w', m')"
  shows "\<exists>c. currentOperations m' = Empty c"
  using assms
  by (cases "currentOperations m")
    (auto simp: EmptyableMorph_didBecomeEmpty_def new_Empty_def createComment_def createNode_def
      split: sum.splits)

lemma after_append_facts:
  "doc (after_append w p t pre reg post) =
     swapped (doc w) p reg [fresh (doc w)..<fresh (doc w) + width t]
       (pre @ [fresh (doc w)..<fresh (doc w) + width t] @ post)"
  "a = allocated w \<Longrightarrow> results (after_append w p t pre reg post) a = \<lparr>template = t,
     extent = \<lparr>parentElement = p,
       firstNode = first_of [fresh (doc w)..<fresh (doc w) + width t],
       lastNode = last_of [fresh (doc w)..<fresh (doc w) + width t]\<rparr>\<rparr>"
  "allocated (after_append w p t pre reg post) = Suc (allocated w)"
  "calls (after_append w p t pre reg post) = calls w @ [Evaluate t (first_of (reg @ post))]"
  by (simp_all add: after_append_def Let_def)


lemma occupies_world4: "occupies world4 tm_placeholder [11] [12] [13, 14]"
  by (simp add: occupies_def world4_def doc4_def tm_placeholder_def siblings_ok_def unused_def)

lemma first_update_world4:
  "updateTemplate patch world4 tm_placeholder tpl1 = Inr (world4_tpl1, tm_tpl1)"
  using appendTemplate_step[OF occupies_world4, of tpl1]
  by (simp add: updateTemplate_def world4_tpl1_def tm_tpl1_def tm_placeholder_def world4_def)




lemma upt_world4:
  "[fresh (doc world4)..<fresh (doc world4) + width tpl1] = [15, 16]"
  "[fresh (doc world4)..<fresh (doc world4) + width tpl0] = []"
  "fresh (doc world4) = 15" "allocated world4 = 0" "morph_parentNode tm_placeholder = 10"
  by (simp_all add: world4_def doc4_def tpl1_def tpl0_def tm_placeholder_def upt_rec)

lemma occupies_world4_tpl1: "occupies world4_tpl1 tm_tpl1 [11] [15, 16] [13, 14]"
  using occupies_after_append[OF occupies_world4 upt_world4(1)[symmetric] refl]
  unfolding upt_world4 world4_tpl1_def[symmetric] tm_tpl1_def[symmetric] by simp


lemma world4_tpl1_facts:
  "fresh (doc world4_tpl1) = 17" "allocated world4_tpl1 = 1"
  "kids (doc world4_tpl1) 10 = [11, 15, 16, 13, 14]" "morph_parentNode tm_tpl1 = 10"
  "lastResult tm_tpl1 = Some 0" "template (results world4_tpl1 0) = tpl1"
  by (simp_all add: world4_tpl1_def after_append_facts swapped_def upt_world4 tm_tpl1_def
      tm_placeholder_def tpl1_def)


text \<open>\<open>didBecomeEmpty\<close> of a template morph that has content.\<close>

lemma didBecomeEmpty_of_content:
  assumes oc: "occupies w m pre reg post" and hc: "currentOperations m = HasContent b"
    and ne: "reg \<noteq> []"
  shows "\<exists>w'. TemplateMorph_didBecomeEmpty w m =
            Inr (w', m\<lparr>currentOperations := Empty (fresh (doc w)), lastResult := None\<rparr>)
       \<and> kids (doc w') (morph_parentNode m) = pre @ fresh (doc w) # post"
proof -
  let ?p = "morph_parentNode m" and ?d = "doc w" and ?c = "fresh (doc w)"
  from oc hc have tb: "the_bounds w b = \<lparr>parentElement = ?p, firstNode = first_of reg,
          lastNode = last_of reg\<rparr>"
    and k: "kids ?d ?p = pre @ reg @ post" and so: "siblings_ok ?d ?p" and un: "unused ?d"
    by (simp_all add: occupies_def)
  from so have di: "distinct (kids ?d ?p)" by (simp add: siblings_ok_def)
  from so k have pa: "\<forall>n\<in>set reg. parentNode ?d n = Some ?p" by (simp add: siblings_ok_def)
  from un have fr: "parentNode ?d ?c = None" by (simp add: unused_def)
  let ?d2 = "(without ?d ?p reg (pre @ post))\<lparr>fresh := Suc ?c\<rparr>"
  let ?d3 = "?d2\<lparr>kids := (kids ?d2)(?p := place ?c (first_of post) (pre @ post)),
                  parentNode := (parentNode ?d2)(?c \<mapsto> ?p)\<rparr>"
  have cl: "clear ?d (the_bounds w b) = Inr (without ?d ?p reg (pre @ post), first_of post)"
    using clear_loop_range[OF k di pa] ne by (simp add: clear_def tb)
  have ib: "insertBefore ?d2 ?p ?c (first_of post) = Inr ?d3"
    using insert_comment_after_clear[OF so k fr refl refl] ne by simp
  have "EmptyableMorph_didBecomeEmpty w m = Inr (w\<lparr>doc := ?d3\<rparr>, m\<lparr>currentOperations := Empty ?c\<rparr>)"
    using cl ib by (simp add: EmptyableMorph_didBecomeEmpty_def hc new_Empty_def createComment_def
        createNode_def without_def del: place.simps)
  then have e: "TemplateMorph_didBecomeEmpty w m =
      Inr (w\<lparr>doc := ?d3\<rparr>, m\<lparr>currentOperations := Empty ?c, lastResult := None\<rparr>)"
    by (simp add: TemplateMorph_didBecomeEmpty_def)
  from di k have "distinct (pre @ post)" by auto
  then have "place ?c (first_of post) (pre @ post) = pre @ ?c # post" by (rule place_first_of)
  then have "kids (doc (w\<lparr>doc := ?d3\<rparr>)) ?p = pre @ ?c # post" by simp
  with e show ?thesis by blast
qed

section \<open>TemplateMorph: the claims\<close>

text \<open>
  C6: after an \<open>updateTemplate(t)\<close> that returned, the morph holds a result of \<open>t\<close>, and
  a second \<open>updateTemplate(t)\<close> is the \<open>rerender()\<close> of that result and nothing else:
  the engine's log grows by that one call, no evaluation and no new result, and the
  morph, with its state and its bounds, is the one before. This holds for every
  patching a \<open>rerender()\<close> may do.
\<close>

theorem updateTemplate_same_template:
  assumes "updateTemplate patch w m t = Inr (w1, m1)"
  shows "\<exists>a. lastResult m1 = Some a \<and> ident (template (results w1 a)) = ident t
     \<and> updateTemplate patch w1 m1 t = Inr (rerender patch w1 a, m1)
     \<and> calls (rerender patch w1 a) = calls w1 @ [Rerender a]
     \<and> allocated (rerender patch w1 a) = allocated w1"
proof -
  have held: "\<exists>a. lastResult m1 = Some a \<and> ident (template (results w1 a)) = ident t"
  proof (cases "\<exists>a. lastResult m = Some a \<and> ident t = ident (template (results w a))")
    case True
    then obtain a where a: "lastResult m = Some a" "ident t = ident (template (results w a))"
      by blast
    with assms have "w1 = rerender patch w a" "m1 = m"
      by (simp_all add: updateTemplate_def)
    with a show ?thesis
      by (auto simp: rerender_def Let_def split: prod.splits)
  next
    case False
    with assms obtain nxt where "appendTemplate w m t nxt = Inr (w1, m1)"
      by (auto simp: updateTemplate_def Let_def split: option.splits if_splits)
    from appendTemplate_result[OF this] show ?thesis by simp
  qed
  then obtain a where a: "lastResult m1 = Some a" "ident (template (results w1 a)) = ident t"
    by blast
  then have "updateTemplate patch w1 m1 t = Inr (rerender patch w1 a, m1)"
    by (simp add: updateTemplate_def)
  moreover have "calls (rerender patch w1 a) = calls w1 @ [Rerender a]"
    "allocated (rerender patch w1 a) = allocated w1"
    by (simp_all add: rerender_def Let_def split: prod.splits)
  ultimately show ?thesis using a by blast
qed

theorem updateTemplate_same_template_witness:
  "updateTemplate keep world4 tm_placeholder tpl1 = Inr (world4_tpl1, tm_tpl1)
   \<and> updateTemplate keep world4_tpl1 tm_tpl1 tpl1 = Inr (rerender keep world4_tpl1 0, tm_tpl1)
   \<and> calls (rerender keep world4_tpl1 0) = [Evaluate tpl1 (Some 12), Rerender 0]
   \<and> currentOperations tm_tpl1 = HasContent (Result 0)"
proof -
  have c: "calls world4_tpl1 = [Evaluate tpl1 (Some 12)]"
    by (simp add: world4_tpl1_def after_append_facts world4_def)
  have l: "lastResult tm_tpl1 = Some 0" "currentOperations tm_tpl1 = HasContent (Result 0)"
    by (simp_all add: tm_tpl1_def)
  from updateTemplate_same_template[OF first_update_world4[of keep]] first_update_world4[of keep] c l
  show ?thesis by auto
qed

text \<open>
  A template morph holds a result only while it is in \<open>HasContent\<close>: so it is for a new
  morph, and every operation that returns keeps it so. In \<open>Empty\<close> there is no result
  left to clear.
\<close>

lemma result_held_only_with_content:
  "lastResult (new_TemplateMorph p) = None"
  "TemplateMorph_didBecomeEmpty w m = Inr (w', m') \<Longrightarrow> lastResult m' = None"
  "appendTemplate w m t nxt = Inr (w', m') \<Longrightarrow> \<exists>b. currentOperations m' = HasContent b"
  "updateTemplate patch w m t = Inr (w', m') \<Longrightarrow>
     (lastResult m \<noteq> None \<longrightarrow> (\<exists>b. currentOperations m = HasContent b)) \<Longrightarrow>
     lastResult m' \<noteq> None \<longrightarrow> (\<exists>b. currentOperations m' = HasContent b)"
  "EmptyableMorph_didInsertContent w m b = Inr (w', m') \<Longrightarrow>
     \<exists>b. currentOperations m' = HasContent b"
proof -
  show "lastResult (new_TemplateMorph p) = None" by (simp add: new_TemplateMorph_def)
  show "lastResult m' = None" if "TemplateMorph_didBecomeEmpty w m = Inr (w', m')"
    using that by (auto simp: TemplateMorph_didBecomeEmpty_def split: sum.splits)
  show "\<exists>b. currentOperations m' = HasContent b" if "appendTemplate w m t nxt = Inr (w', m')"
    using appendTemplate_result[OF that] by simp
  show "lastResult m' \<noteq> None \<longrightarrow> (\<exists>b. currentOperations m' = HasContent b)"
    if u: "updateTemplate patch w m t = Inr (w', m')"
      and i: "lastResult m \<noteq> None \<longrightarrow> (\<exists>b. currentOperations m = HasContent b)"
  proof (cases "\<exists>a. lastResult m = Some a \<and> ident t = ident (template (results w a))")
    case True
    with u have "m' = m" by (auto simp: updateTemplate_def)
    with i show ?thesis by simp
  next
    case False
    with u obtain nxt where "appendTemplate w m t nxt = Inr (w', m')"
      by (auto simp: updateTemplate_def Let_def split: option.splits if_splits)
    from appendTemplate_result[OF this] show ?thesis by simp
  qed
  show "\<exists>b. currentOperations m' = HasContent b"
    if "EmptyableMorph_didInsertContent w m b = Inr (w', m')"
    using didInsertContent_frame[OF that] by simp
qed

text \<open>
  C9: what each operation of a \<open>TemplateMorph\<close> that returns does to \<open>lastResult\<close>.
  \<open>didBecomeEmpty\<close>, the only one that leaves the morph in \<open>Empty\<close>, sets it to null, and
  then \<open>firstNode()\<close> and \<open>lastNode()\<close> are the placeholder comment. \<open>appendTemplate\<close> sets
  it to the result of the evaluation it has just made. \<open>updateTemplate\<close> either only
  asks the result held to rerender and leaves the morph as it is, or appends; and
  \<open>didInsertContent\<close> leaves it as it is, with the morph in \<open>HasContent\<close>.
\<close>

theorem lastResult_lifecycle:
  "(TemplateMorph_didBecomeEmpty w m = Inr (w', m') \<longrightarrow>
      lastResult m' = None
      \<and> (\<exists>c. currentOperations m' = Empty c \<and> TemplateMorph_firstNode w' m' = Some c
              \<and> TemplateMorph_lastNode w' m' = Some c))
   \<and> (appendTemplate w m t nxt = Inr (w', m') \<longrightarrow>
      lastResult m' = Some (allocated w) \<and> template (results w' (allocated w)) = t
      \<and> currentOperations m' = HasContent (Result (allocated w))
      \<and> calls w' = calls w @ [Evaluate t nxt])
   \<and> (updateTemplate patch w m t = Inr (w', m') \<longrightarrow>
      (m' = m \<and> (\<exists>a. lastResult m = Some a \<and> calls w' = calls w @ [Rerender a]))
      \<or> (lastResult m' = Some (allocated w)
          \<and> currentOperations m' = HasContent (Result (allocated w))
          \<and> (\<exists>a. calls w' = calls w @ [Evaluate t a])))
   \<and> (EmptyableMorph_didInsertContent w m b = Inr (w', m') \<longrightarrow>
      lastResult m' = lastResult m \<and> currentOperations m' = HasContent b)"
proof (intro conjI impI)
  assume e: "TemplateMorph_didBecomeEmpty w m = Inr (w', m')"
  then obtain m0 where e0: "EmptyableMorph_didBecomeEmpty w m = Inr (w', m0)"
    and m': "m' = m0\<lparr>lastResult := None\<rparr>"
    by (auto simp: TemplateMorph_didBecomeEmpty_def split: sum.splits)
  from didBecomeEmpty_state[OF e0] obtain c where "currentOperations m0 = Empty c" by blast
  with m' show "lastResult m' = None" 
    and "\<exists>c. currentOperations m' = Empty c \<and> TemplateMorph_firstNode w' m' = Some c
              \<and> TemplateMorph_lastNode w' m' = Some c"
    by (simp_all add: TemplateMorph_firstNode_def TemplateMorph_lastNode_def
        EmptyableMorph_firstNode_def EmptyableMorph_lastNode_def)
next
  assume a: "appendTemplate w m t nxt = Inr (w', m')"
  from appendTemplate_result[OF a]
  show "lastResult m' = Some (allocated w)" "template (results w' (allocated w)) = t"
    "currentOperations m' = HasContent (Result (allocated w))"
    "calls w' = calls w @ [Evaluate t nxt]"
    by simp_all
next
  assume u: "updateTemplate patch w m t = Inr (w', m')"
  show "(m' = m \<and> (\<exists>a. lastResult m = Some a \<and> calls w' = calls w @ [Rerender a]))
      \<or> (lastResult m' = Some (allocated w)
          \<and> currentOperations m' = HasContent (Result (allocated w))
          \<and> (\<exists>a. calls w' = calls w @ [Evaluate t a]))"
  proof (cases "\<exists>a. lastResult m = Some a \<and> ident t = ident (template (results w a))")
    case True
    then obtain a where a: "lastResult m = Some a" "ident t = ident (template (results w a))"
      by blast
    with u have "w' = rerender patch w a" "m' = m"
      by (simp_all add: updateTemplate_def)
    with a show ?thesis
      by (auto simp: rerender_def Let_def split: prod.splits)
  next
    case False
    with u obtain nxt where "appendTemplate w m t nxt = Inr (w', m')"
      by (auto simp: updateTemplate_def Let_def split: option.splits if_splits)
    from appendTemplate_result[OF this] show ?thesis by simp
  qed
next
  assume d: "EmptyableMorph_didInsertContent w m b = Inr (w', m')"
  from didInsertContent_frame[OF d]
  show "lastResult m' = lastResult m" "currentOperations m' = HasContent b" by simp_all
qed
theorem lastResult_lifecycle_witness:
  "TemplateMorph_didBecomeEmpty world4 (new_TemplateMorph 10)
      = Inr (world4\<lparr>doc := doc4_placeholder\<rparr>,
             (new_TemplateMorph 10)\<lparr>currentOperations := Empty 15\<rparr>)
   \<and> TemplateMorph_firstNode (world4\<lparr>doc := doc4_placeholder\<rparr>)
        ((new_TemplateMorph 10)\<lparr>currentOperations := Empty 15\<rparr>) = Some 15
   \<and> appendTemplate world4 tm_placeholder tpl1 (Some 12) = Inr (world4_tpl1, tm_tpl1)
   \<and> updateTemplate keep world4 tm_placeholder tpl1 = Inr (world4_tpl1, tm_tpl1)
   \<and> lastResult tm_tpl1 = Some 0 \<and> template (results world4_tpl1 0) = tpl1
   \<and> EmptyableMorph_didInsertContent world4 (new_TemplateMorph 10) (Plain (appendBounds 10))
      = Inr (world4, (new_TemplateMorph 10)\<lparr>currentOperations := HasContent (Plain (appendBounds 10))\<rparr>)
   \<and> (\<exists>w'. TemplateMorph_didBecomeEmpty world4_tpl1 tm_tpl1
          = Inr (w', tm_tpl1\<lparr>currentOperations := Empty 17, lastResult := None\<rparr>)
        \<and> kids (doc w') 10 = [11, 17, 13, 14]
        \<and> TemplateMorph_firstNode w' (tm_tpl1\<lparr>currentOperations := Empty 17, lastResult := None\<rparr>)
            = Some 17
        \<and> TemplateMorph_lastNode w' (tm_tpl1\<lparr>currentOperations := Empty 17, lastResult := None\<rparr>)
            = Some 17)"
proof -
  have e: "TemplateMorph_didBecomeEmpty world4 (new_TemplateMorph 10)
      = Inr (world4\<lparr>doc := doc4_placeholder\<rparr>,
             (new_TemplateMorph 10)\<lparr>currentOperations := Empty 15\<rparr>)"
    by (simp add: TemplateMorph_didBecomeEmpty_def EmptyableMorph_didBecomeEmpty_def
        new_TemplateMorph_def new_Empty_def createComment_def createNode_def insertBefore_def
        detach_def world4_def doc4_def doc4_placeholder_def fun_eq_iff)
  have a: "appendTemplate world4 tm_placeholder tpl1 (Some 12) = Inr (world4_tpl1, tm_tpl1)"
    using appendTemplate_step[OF occupies_world4, of tpl1]
    by (simp add: world4_tpl1_def tm_tpl1_def tm_placeholder_def world4_def
        EmptyableMorph_nextSiblingForContent_def)
  have d: "EmptyableMorph_didInsertContent world4 (new_TemplateMorph 10) (Plain (appendBounds 10))
      = Inr (world4, (new_TemplateMorph 10)\<lparr>currentOperations := HasContent (Plain (appendBounds 10))\<rparr>)"
    by (simp add: EmptyableMorph_didInsertContent_def new_TemplateMorph_def)
  have z: "allocated world4 = 0" by (simp add: world4_def)
  have hc: "currentOperations tm_tpl1 = HasContent (Result 0)" by (simp add: tm_tpl1_def)
  from didBecomeEmpty_of_content[OF occupies_world4_tpl1 hc] obtain w' where
    e2: "TemplateMorph_didBecomeEmpty world4_tpl1 tm_tpl1
          = Inr (w', tm_tpl1\<lparr>currentOperations := Empty 17, lastResult := None\<rparr>)"
    and k2: "kids (doc w') 10 = [11, 17, 13, 14]"
    unfolding world4_tpl1_facts by auto
  from lastResult_lifecycle[where w = world4_tpl1 and m = tm_tpl1 and w' = w'
      and m' = "tm_tpl1\<lparr>currentOperations := Empty 17, lastResult := None\<rparr>"] e2
  have f2: "TemplateMorph_firstNode w' (tm_tpl1\<lparr>currentOperations := Empty 17, lastResult := None\<rparr>)
            = Some 17"
    "TemplateMorph_lastNode w' (tm_tpl1\<lparr>currentOperations := Empty 17, lastResult := None\<rparr>)
            = Some 17"
    by auto
  from e2 k2 f2 have x: "\<exists>w'. TemplateMorph_didBecomeEmpty world4_tpl1 tm_tpl1
          = Inr (w', tm_tpl1\<lparr>currentOperations := Empty 17, lastResult := None\<rparr>)
        \<and> kids (doc w') 10 = [11, 17, 13, 14]
        \<and> TemplateMorph_firstNode w' (tm_tpl1\<lparr>currentOperations := Empty 17, lastResult := None\<rparr>)
            = Some 17
        \<and> TemplateMorph_lastNode w' (tm_tpl1\<lparr>currentOperations := Empty 17, lastResult := None\<rparr>)
            = Some 17"
    by blast
  from lastResult_lifecycle[where w = world4 and m = "new_TemplateMorph 10"
      and w' = "world4\<lparr>doc := doc4_placeholder\<rparr>"
      and m' = "(new_TemplateMorph 10)\<lparr>currentOperations := Empty 15\<rparr>"]
    lastResult_lifecycle[where w = world4 and m = tm_placeholder and w' = world4_tpl1
      and m' = tm_tpl1 and t = tpl1 and nxt = "Some 12" and patch = keep]
    lastResult_lifecycle[where w = world4 and m = "new_TemplateMorph 10" and w' = world4
      and m' = "(new_TemplateMorph 10)\<lparr>currentOperations := HasContent (Plain (appendBounds 10))\<rparr>"
      and b = "Plain (appendBounds 10)"]
    e a d first_update_world4[of keep] z x
  show ?thesis by simp
qed




end
